theory Spec2Isabelle
  imports Main "HOL-Library.Word"
begin

section \<open>Course schedule resolvers and the closest-person comparison\<close>

text \<open>
  The repository holds three independent C++ functions:
  \<^item> \<^verbatim>\<open>canFinish(int n, vector<vector<int>>& pre)\<close> in Course_Schedule.cpp,
  \<^item> \<^verbatim>\<open>findOrder(int n, vector<vector<int>>& pre)\<close> in Course_Schedule_II.cpp,
  \<^item> \<^verbatim>\<open>findClosest(int x, int y, int z)\<close> in Find_Closest_Person.cpp.

  The first two run Kahn's algorithm. Their texts agree line by line except for line 6
  (which component of a pair indexes \<^verbatim>\<open>adj\<close> and which one is pushed), the order of the
  two statements \<^verbatim>\<open>qu.pop()\<close> and \<^verbatim>\<open>topo.push_back(top)\<close>, and the return statement.
  The embedding therefore shares the loops and takes the two positions of line 6 as
  parameters.

  Conventions of the embedding.
  \<^item> \<^verbatim>\<open>vector<T>\<close> is a list, \<^verbatim>\<open>queue<int>\<close> is a list with the front at the head.
  \<^item> Items, the count \<^verbatim>\<open>n\<close> and the in-degree counters of the two resolvers are
    modelled by \<^typ>\<open>int\<close>: the only arithmetic on them is \<^verbatim>\<open>++\<close> and \<^verbatim>\<open>--\<close> on counters
    bounded by the number of pairs, which is taken to stay below \<open>2^31\<close>. The
    arguments of \<^verbatim>\<open>findClosest\<close>, where a subtraction can leave the range, are 32-bit words.
  \<^item> An unchecked \<^verbatim>\<open>operator[]\<close> outside its vector is undefined behaviour; the model
    stops there with \<open>OutOfBounds\<close>. Constructing a vector from a negative \<^verbatim>\<open>int\<close> count
    throws \<^verbatim>\<open>std::length_error\<close>; the model stops with \<open>LengthError\<close>.
\<close>

subsection \<open>Faults and loops\<close>

datatype fault = LengthError | OutOfBounds

definition and_then :: "fault + 'a \<Rightarrow> ('a \<Rightarrow> fault + 'b) \<Rightarrow> fault + 'b" where
  "and_then r f = (case r of Inl e \<Rightarrow> Inl e | Inr s \<Rightarrow> f s)"

text \<open>A \<^verbatim>\<open>for\<close> loop over a sequence fixed at loop entry; a fault in the body ends it.\<close>

fun for_each :: "'a list \<Rightarrow> ('a \<Rightarrow> 's \<Rightarrow> fault + 's) \<Rightarrow> 's \<Rightarrow> fault + 's" where
  "for_each [] body s = Inr s"
| "for_each (x # xs) body s =
     (case body x s of Inl e \<Rightarrow> Inl e | Inr s' \<Rightarrow> for_each xs body s')"

definition in_bounds :: "int \<Rightarrow> 'a list \<Rightarrow> bool" where
  "in_bounds i xs \<longleftrightarrow> 0 \<le> i \<and> i < int (length xs)"

subsection \<open>The variables of a resolver call\<close>

text \<open>
  \<open>pre\<close> is the caller's vector, reached through the reference parameter; the other
  fields are the locals of the function body. \<open>pending\<close> is the part of \<^verbatim>\<open>adj[top]\<close> that
  the range-for of line 26 has still to visit (empty outside that loop).
\<close>

record locals =
  pre :: "int list list"
  adj :: "int list list"
  indegre :: "int list"
  qu :: "int list"
  topo :: "int list"
  pending :: "int list"

subsection \<open>Lines 4 to 20: adjacency, in-degrees, initial queue\<close>

text \<open>
  Line 6, \<^verbatim>\<open>adj[it[src]].push_back(it[dst])\<close>, on the copy \<open>it\<close> of one element of \<open>pre\<close>.
  \<^verbatim>\<open>canFinish\<close> has \<open>src = 0\<close>, \<open>dst = 1\<close>; \<^verbatim>\<open>findOrder\<close> has \<open>src = 1\<close>, \<open>dst = 0\<close>.
\<close>

definition add_edge :: "nat \<Rightarrow> nat \<Rightarrow> int list \<Rightarrow> locals \<Rightarrow> fault + locals" where
  "add_edge src dst it s =
     (if src < length it \<and> dst < length it \<and> in_bounds (it ! src) (adj s)
      then Inr (s\<lparr>adj := (adj s)[nat (it ! src) := adj s ! nat (it ! src) @ [it ! dst]]\<rparr>)
      else Inl OutOfBounds)"

text \<open>Line 12, \<^verbatim>\<open>indegre[it]++\<close>.\<close>

definition bump :: "int \<Rightarrow> locals \<Rightarrow> fault + locals" where
  "bump it s =
     (if in_bounds it (indegre s)
      then Inr (s\<lparr>indegre := (indegre s)[nat it := indegre s ! nat it + 1]\<rparr>)
      else Inl OutOfBounds)"

text \<open>Lines 11 to 13, the range-for over \<^verbatim>\<open>adj[i]\<close>.\<close>

definition tally :: "int \<Rightarrow> locals \<Rightarrow> fault + locals" where
  "tally i s =
     (if in_bounds i (adj s) then for_each (adj s ! nat i) bump s else Inl OutOfBounds)"

text \<open>Lines 17 to 19, \<^verbatim>\<open>if(indegre[i] == 0) qu.push(i)\<close>.\<close>

definition seed :: "int \<Rightarrow> locals \<Rightarrow> fault + locals" where
  "seed i s =
     (if in_bounds i (indegre s)
      then Inr (if indegre s ! nat i = 0 then s\<lparr>qu := qu s @ [i]\<rparr> else s)
      else Inl OutOfBounds)"

text \<open>The state on entry to the \<^verbatim>\<open>while\<close> loop of line 22.\<close>

definition prepare :: "nat \<Rightarrow> nat \<Rightarrow> int \<Rightarrow> int list list \<Rightarrow> fault + locals" where
  "prepare src dst n pre0 =
     (if n < 0 then Inl LengthError
      else
        and_then
          (for_each pre0 (add_edge src dst)
             \<lparr>pre = pre0, adj = replicate (nat n) [], indegre = [], qu = [], topo = [],
              pending = []\<rparr>)
          (\<lambda>s. and_then
             (for_each [0..n - 1] tally (s\<lparr>indegre := replicate (nat n) 0\<rparr>))
             (for_each [0..n - 1] seed)))"

subsection \<open>Lines 22 to 30: draining the queue\<close>

text \<open>Lines 27 and 28, \<^verbatim>\<open>indegre[it]--; if(indegre[it] == 0) qu.push(it);\<close>.\<close>

definition relax :: "int \<Rightarrow> locals \<Rightarrow> fault + locals" where
  "relax it s =
     (if in_bounds it (indegre s)
      then
        (let d = (indegre s)[nat it := indegre s ! nat it - 1]
         in Inr (s\<lparr>indegre := d, qu := (if d ! nat it = 0 then qu s @ [it] else qu s)\<rparr>))
      else Inl OutOfBounds)"

text \<open>Lines 23 to 25 and the entry of the range-for of line 26.\<close>

definition pop_front :: "int \<Rightarrow> int list \<Rightarrow> locals \<Rightarrow> fault + locals" where
  "pop_front top' rest s =
     (if in_bounds top' (adj s)
      then Inr (s\<lparr>topo := topo s @ [top'], qu := rest, pending := adj s ! nat top'\<rparr>)
      else Inl OutOfBounds)"

text \<open>
  One move of the loop nest: one iteration of the inner range-for when it is under way,
  otherwise the test of line 22 followed by lines 23 to 25. \<open>None\<close> means that the test
  of line 22 failed and the loop is left.
\<close>

definition step :: "locals \<Rightarrow> (fault + locals) option" where
  "step s =
     (case pending s of
        it # w \<Rightarrow> Some (relax it (s\<lparr>pending := w\<rparr>))
      | [] \<Rightarrow> (case qu s of [] \<Rightarrow> None | top' # rest \<Rightarrow> Some (pop_front top' rest s)))"

definition moves :: "locals \<Rightarrow> locals \<Rightarrow> bool" where
  "moves s s' \<longleftrightarrow> step s = Some (Inr s')"

definition weight :: "locals \<Rightarrow> nat" where
  "weight s = length (qu s) + length (filter (\<lambda>c. 0 < c) (indegre s))"

function drain :: "locals \<Rightarrow> fault + locals" where
  "drain s =
     (case step s of None \<Rightarrow> Inr s | Some (Inl e) \<Rightarrow> Inl e | Some (Inr s') \<Rightarrow> drain s')"
  by pat_completeness auto

text \<open>
  Every move either shortens the queue, or shortens \<open>pending\<close> while the queue grows by
  an item only when a positive counter becomes zero; so the loop always comes to an end.
\<close>

termination drain
proof (relation "measures [weight, \<lambda>s. length (pending s)]")
  show "wf (measures [weight, \<lambda>s. length (pending s)])" by simp
next
  fix s :: locals and r s'
  assume st: "step s = Some r" and r: "r = Inr s'"
  have upd: "length (filter P (xs[i := y])) + (if P (xs ! i) then 1 else 0)
           = length (filter P xs) + (if P y then 1 else 0)"
    if "i < length xs" for P :: "int \<Rightarrow> bool" and xs i y
    using that
  proof (induction xs arbitrary: i)
    case Nil
    then show ?case by simp
  next
    case (Cons x xs)
    then show ?case by (cases i) auto
  qed
  show "(s', s) \<in> measures [weight, \<lambda>s. length (pending s)]"
  proof (cases "pending s")
    case Nil
    with st r obtain t rest where q: "qu s = t # rest" and p: "pop_front t rest s = Inr s'"
      by (auto simp: step_def split: list.splits)
    from p have "qu s' = rest" "indegre s' = indegre s"
      by (auto simp: pop_front_def split: if_splits)
    with q show ?thesis by (simp add: weight_def)
  next
    case (Cons it w)
    with st r have rl: "relax it (s\<lparr>pending := w\<rparr>) = Inr s'"
      by (simp add: step_def)
    then have ib: "in_bounds it (indegre s)"
      by (auto simp: relax_def split: if_splits)
    then have lt: "nat it < length (indegre s)"
      by (auto simp: in_bounds_def)
    let ?c = "indegre s ! nat it"
    from rl ib have ind: "indegre s' = (indegre s)[nat it := ?c - 1]"
      and qs: "qu s' = (if ?c - 1 = 0 then qu s @ [it] else qu s)"
      and pd: "pending s' = w"
      using lt by (auto simp: relax_def Let_def)
    from upd [OF lt, of "\<lambda>c. 0 < c" "?c - 1"] ind qs
    have "weight s' = weight s"
      by (auto simp: weight_def split: if_splits)
    with pd Cons show ?thesis by simp
  qed
qed

declare drain.simps [simp del]

subsection \<open>The two resolvers\<close>

text \<open>The state at the return statement: lines 4 to 30.\<close>

definition resolve :: "nat \<Rightarrow> nat \<Rightarrow> int \<Rightarrow> int list list \<Rightarrow> fault + locals" where
  "resolve src dst n pre0 = and_then (prepare src dst n pre0) drain"

text \<open>Course_Schedule.cpp, line 31: \<^verbatim>\<open>return (topo.size() == n);\<close>\<close>

definition canFinish :: "int \<Rightarrow> int list list \<Rightarrow> fault + bool" where
  "canFinish n pre0 =
     and_then (resolve 0 1 n pre0) (\<lambda>s. Inr (int (length (topo s)) = n))"

text \<open>Course_Schedule_II.cpp, lines 31 and 32: \<^verbatim>\<open>if(topo.size() == n) return topo; return {};\<close>\<close>

definition findOrder :: "int \<Rightarrow> int list list \<Rightarrow> fault + int list" where
  "findOrder n pre0 =
     and_then (resolve 1 0 n pre0)
       (\<lambda>s. Inr (if int (length (topo s)) = n then topo s else []))"

text \<open>
  Two observations of a run that the return statements do not expose: the rows of \<^verbatim>\<open>adj\<close>
  after line 7, and the sequence \<^verbatim>\<open>topo\<close> after line 30, which is the order in which
  the loop took the items from the queue.
\<close>

definition adjacency :: "nat \<Rightarrow> nat \<Rightarrow> int \<Rightarrow> int list list \<Rightarrow> fault + int list list" where
  "adjacency src dst n pre0 = and_then (prepare src dst n pre0) (\<lambda>s. Inr (adj s))"

definition canFinish_adj :: "int \<Rightarrow> int list list \<Rightarrow> fault + int list list" where
  "canFinish_adj = adjacency 0 1"

definition findOrder_adj :: "int \<Rightarrow> int list list \<Rightarrow> fault + int list list" where
  "findOrder_adj = adjacency 1 0"

definition visit_order :: "nat \<Rightarrow> nat \<Rightarrow> int \<Rightarrow> int list list \<Rightarrow> fault + int list" where
  "visit_order src dst n pre0 = and_then (resolve src dst n pre0) (\<lambda>s. Inr (topo s))"

definition canFinish_visits :: "int \<Rightarrow> int list list \<Rightarrow> fault + int list" where
  "canFinish_visits = visit_order 0 1"

definition findOrder_visits :: "int \<Rightarrow> int list list \<Rightarrow> fault + int list" where
  "findOrder_visits = visit_order 1 0"

subsection \<open>The closest-person comparison\<close>

text \<open>
  \<^verbatim>\<open>int\<close> is a 32-bit two's-complement word. \<^verbatim>\<open>abs\<close> negates a negative argument; on
  the least value the negation wraps to the least value again (the C++ standard leaves
  that case, like an overflowing subtraction, undefined). Comparisons are signed.
\<close>

definition abs32 :: "32 word \<Rightarrow> 32 word" where
  "abs32 v = (if v <s 0 then - v else v)"

definition findClosest :: "32 word \<Rightarrow> 32 word \<Rightarrow> 32 word \<Rightarrow> 32 word" where
  "findClosest x y z =
     (let xzDist = abs32 (x - z);
          yzDist = abs32 (y - z)
      in if xzDist <s yzDist then 1
         else if yzDist <s xzDist then 2
         else 0)"

subsection \<open>Vocabulary of the specification\<close>

text \<open>A well-formed input: a non-negative count and pairs of items below it.\<close>

definition valid_input :: "int \<Rightarrow> int list list \<Rightarrow> bool" where
  "valid_input n pre0 \<longleftrightarrow>
     0 \<le> n \<and>
     (\<forall>p \<in> set pre0. length p = 2 \<and> 0 \<le> p ! 0 \<and> p ! 0 < n \<and> 0 \<le> p ! 1 \<and> p ! 1 < n)"

text \<open>The prerequisite graph: the pair \<open>(a, b)\<close> contributes the edge from \<open>b\<close> to \<open>a\<close>.\<close>

definition prereq_graph :: "int list list \<Rightarrow> (int \<times> int) set" where
  "prereq_graph pre0 = (\<lambda>p. (p ! 1, p ! 0)) ` set pre0"

text \<open>\<open>b\<close> occurs in \<open>xs\<close> at a position strictly before an occurrence of \<open>a\<close>.\<close>

definition before :: "int list \<Rightarrow> int \<Rightarrow> int \<Rightarrow> bool" where
  "before xs b a \<longleftrightarrow> (\<exists>j < length xs. \<exists>i < j. xs ! i = b \<and> xs ! j = a)"

text \<open>
  The row that line 6 builds for item \<open>u\<close>: the \<open>dst\<close> components of the pairs whose \<open>src\<close>
  component is \<open>u\<close>, in the order of the list.
\<close>

definition row_of :: "nat \<Rightarrow> nat \<Rightarrow> int list list \<Rightarrow> int \<Rightarrow> int list" where
  "row_of src dst pre0 u = map (\<lambda>p. p ! dst) (filter (\<lambda>p. p ! src = u) pre0)"

text \<open>The table of rows for the items \<open>0\<close> to \<open>n - 1\<close>.\<close>

definition rows :: "nat \<Rightarrow> nat \<Rightarrow> int \<Rightarrow> int list list \<Rightarrow> int list list" where
  "rows src dst n pre0 = map (\<lambda>u. row_of src dst pre0 (int u)) [0..<nat n]"

text \<open>
  Every item pushed stays in \<open>qu\<close> until line 25 moves it to the end of \<open>topo\<close>, so
  \<open>topo\<close> followed by \<open>qu\<close> lists all pushes so far, in order.
\<close>

definition pushed :: "locals \<Rightarrow> int list" where
  "pushed s = topo s @ qu s"

text \<open>
  The condition on the in-degree table and the queue: no counter is negative, no item
  has been pushed twice, and the items pushed are those whose counter is zero.
\<close>

definition tidy :: "int \<Rightarrow> locals \<Rightarrow> bool" where
  "tidy n s \<longleftrightarrow>
     (\<forall>c \<in> set (indegre s). 0 \<le> c) \<and>
     distinct (pushed s) \<and>
     (\<forall>v. 0 \<le> v \<and> v < n \<longrightarrow> (v \<in> set (pushed s)) = (indegre s ! nat v = 0))"

text \<open>
  What one move does to the pushes: nothing, or one item whose counter the move took
  from one to zero.
\<close>

definition push_rule :: "locals \<Rightarrow> locals \<Rightarrow> bool" where
  "push_rule s s' \<longleftrightarrow>
     pushed s' = pushed s \<or>
     (\<exists>it. pushed s' = pushed s @ [it] \<and> indegre s ! nat it = 1 \<and> indegre s' ! nat it = 0)"

text \<open>
  What the loop does with the rows in state \<open>s\<close>. When the range-for is not under way and
  \<open>t\<close> is at the front of the queue, the next move takes \<open>t\<close> from the queue, appends it
  to \<open>topo\<close> and starts the range-for over the row of \<open>t\<close>, leaving the counters as they
  are. When the range-for is at item \<open>it\<close>, the next move lowers the counter of \<open>it\<close> by
  one and goes on with the rest of the row.
\<close>

definition serves_rows :: "nat \<Rightarrow> nat \<Rightarrow> int list list \<Rightarrow> locals \<Rightarrow> bool" where
  "serves_rows src dst pre0 s \<longleftrightarrow>
     (\<forall>t rest. pending s = [] \<and> qu s = t # rest \<longrightarrow>
        (\<exists>s'. moves s s' \<and> topo s' = topo s @ [t] \<and> qu s' = rest \<and>
              pending s' = row_of src dst pre0 t \<and> indegre s' = indegre s)) \<and>
     (\<forall>it w. pending s = it # w \<longrightarrow>
        (\<exists>s'. moves s s' \<and> pending s' = w \<and> topo s' = topo s \<and>
              in_bounds it (indegre s) \<and>
              indegre s' = (indegre s)[nat it := indegre s ! nat it - 1]))"

text \<open>An integer that a 32-bit \<^verbatim>\<open>int\<close> holds exactly.\<close>

definition representable :: "int \<Rightarrow> bool" where
  "representable k \<longleftrightarrow> - (2 ^ 31) \<le> k \<and> k < 2 ^ 31"

text \<open>
  The comparison of the two distances to \<open>z\<close> on unbounded integers, in the words of the
  claim about \<^verbatim>\<open>findClosest\<close>: 1 when \<open>x\<close> is nearer, 2 when \<open>y\<close> is nearer, 0 on a tie.
\<close>

definition closest_spec :: "int \<Rightarrow> int \<Rightarrow> int \<Rightarrow> int" where
  "closest_spec x y z =
     (if \<bar>x - z\<bar> < \<bar>y - z\<bar> then 1 else if \<bar>x - z\<bar> > \<bar>y - z\<bar> then 2 else 0)"

subsection \<open>The loop invariant\<close>

text \<open>The adjacency rows only hold items of the table.\<close>

definition closed_adj :: "int list list \<Rightarrow> bool" where
  "closed_adj A \<longleftrightarrow> (\<forall>r \<in> set A. \<forall>v \<in> set r. in_bounds v A)"

text \<open>The edges into \<open>v\<close> whose source is not in \<open>D\<close>, counted with multiplicity.\<close>

definition unmet :: "int list list \<Rightarrow> int set \<Rightarrow> int \<Rightarrow> nat" where
  "unmet A D v = (\<Sum>u \<in> {u. in_bounds u A \<and> u \<notin> D}. count_list (A ! nat u) v)"

definition edges_of :: "int list list \<Rightarrow> (int \<times> int) set" where
  "edges_of A = {(u, v). in_bounds u A \<and> v \<in> set (A ! nat u)}"

definition kahn_inv :: "int list list \<Rightarrow> locals \<Rightarrow> bool" where
  "kahn_inv A s \<longleftrightarrow>
     adj s = A \<and> length (indegre s) = length A \<and>
     distinct (pushed s) \<and>
     (\<forall>v \<in> set (pushed s). in_bounds v A) \<and>
     (\<forall>v \<in> set (pending s). in_bounds v A) \<and>
     (\<forall>v. in_bounds v A \<longrightarrow>
        indegre s ! nat v = int (unmet A (set (topo s)) v + count_list (pending s) v)) \<and>
     (\<forall>v. in_bounds v A \<longrightarrow> (v \<in> set (pushed s)) = (indegre s ! nat v = 0)) \<and>
     (\<forall>j < length (topo s). \<forall>u. (u, topo s ! j) \<in> edges_of A \<longrightarrow>
        (\<exists>i < j. topo s ! i = u))"

section \<open>Facts about the loops\<close>

lemma and_then_Inr [simp]: "and_then (Inr s) f = f s"
  by (simp add: and_then_def)

lemma and_then_Inl [simp]: "and_then (Inl e) f = Inl e"
  by (simp add: and_then_def)

lemma in_bounds_nat: "in_bounds i xs \<Longrightarrow> nat i < length xs"
  by (auto simp: in_bounds_def)

lemma in_bounds_int [simp]: "in_bounds (int u) xs \<longleftrightarrow> u < length xs"
  by (auto simp: in_bounds_def)

subsection \<open>Lines 4 to 7\<close>

lemma row_of_Nil [simp]: "row_of src dst [] u = []"
  by (simp add: row_of_def)

lemma row_of_Cons:
  "row_of src dst (p # ps) u = (if p ! src = u then p ! dst # row_of src dst ps u else row_of src dst ps u)"
  by (simp add: row_of_def)

lemma build_rows:
  assumes "\<forall>p \<in> set ps. src < length p \<and> dst < length p \<and> in_bounds (p ! src) (adj s)"
  shows "for_each ps (add_edge src dst) s =
         Inr (s\<lparr>adj := map (\<lambda>u. adj s ! u @ row_of src dst ps (int u)) [0..<length (adj s)]\<rparr>)"
  using assms
proof (induction ps arbitrary: s)
  case Nil
  then show ?case by (simp add: map_nth)
next
  case (Cons p ps)
  let ?k = "nat (p ! src)"
  let ?s1 = "s\<lparr>adj := (adj s)[?k := adj s ! ?k @ [p ! dst]]\<rparr>"
  from Cons.prems have ok: "src < length p" "dst < length p" "in_bounds (p ! src) (adj s)"
    by simp_all
  then have k: "?k < length (adj s)" "int ?k = p ! src"
    by (auto simp: in_bounds_def)
  have one: "add_edge src dst p s = Inr ?s1"
    using ok by (simp add: add_edge_def)
  have "\<forall>q \<in> set ps. src < length q \<and> dst < length q \<and> in_bounds (q ! src) (adj ?s1)"
    using Cons.prems by (simp add: in_bounds_def)
  from Cons.IH [OF this]
  have rest: "for_each ps (add_edge src dst) ?s1 =
      Inr (?s1\<lparr>adj := map (\<lambda>u. adj ?s1 ! u @ row_of src dst ps (int u)) [0..<length (adj ?s1)]\<rparr>)" .
  have "map (\<lambda>u. adj ?s1 ! u @ row_of src dst ps (int u)) [0..<length (adj ?s1)]
      = map (\<lambda>u. adj s ! u @ row_of src dst (p # ps) (int u)) [0..<length (adj s)]"
    using k by (auto simp: row_of_Cons nth_list_update)
  with one rest show ?case by simp
qed

subsection \<open>Lines 9 to 14\<close>

lemma bump_all:
  assumes "\<forall>v \<in> set r. in_bounds v (indegre s)"
  shows "for_each r bump s =
         Inr (s\<lparr>indegre := map (\<lambda>v. indegre s ! v + int (count_list r (int v)))
                               [0..<length (indegre s)]\<rparr>)"
  using assms
proof (induction r arbitrary: s)
  case Nil
  then show ?case by (simp add: map_nth)
next
  case (Cons it r)
  let ?k = "nat it"
  let ?s1 = "s\<lparr>indegre := (indegre s)[?k := indegre s ! ?k + 1]\<rparr>"
  from Cons.prems have ok: "in_bounds it (indegre s)" by simp
  then have k: "?k < length (indegre s)" "int ?k = it"
    by (auto simp: in_bounds_def)
  have one: "bump it s = Inr ?s1"
    using ok by (simp add: bump_def)
  have "\<forall>v \<in> set r. in_bounds v (indegre ?s1)"
    using Cons.prems by (simp add: in_bounds_def)
  from Cons.IH [OF this]
  have rest: "for_each r bump ?s1 =
      Inr (?s1\<lparr>indegre := map (\<lambda>v. indegre ?s1 ! v + int (count_list r (int v)))
                               [0..<length (indegre ?s1)]\<rparr>)" .
  have "map (\<lambda>v. indegre ?s1 ! v + int (count_list r (int v))) [0..<length (indegre ?s1)]
      = map (\<lambda>v. indegre s ! v + int (count_list (it # r) (int v))) [0..<length (indegre s)]"
    using k by (auto simp: nth_list_update)
  with one rest show ?case by simp
qed

lemma tally_all:
  assumes "\<forall>i \<in> set is. in_bounds i (adj s)"
    and "\<forall>r \<in> set (adj s). \<forall>v \<in> set r. in_bounds v (indegre s)"
  shows "for_each is tally s =
         Inr (s\<lparr>indegre := map (\<lambda>v. indegre s ! v +
                   int (\<Sum>i\<leftarrow>is. count_list (adj s ! nat i) (int v)))
                 [0..<length (indegre s)]\<rparr>)"
  using assms
proof (induction "is" arbitrary: s)
  case Nil
  then show ?case by (simp add: map_nth)
next
  case (Cons i "is")
  let ?r = "adj s ! nat i"
  let ?s1 = "s\<lparr>indegre := map (\<lambda>v. indegre s ! v + int (count_list ?r (int v)))
                               [0..<length (indegre s)]\<rparr>"
  from Cons.prems have ok: "in_bounds i (adj s)" by simp
  then have "?r \<in> set (adj s)"
    by (simp add: in_bounds_nat)
  with Cons.prems have "\<forall>v \<in> set ?r. in_bounds v (indegre s)" by blast
  then have one: "tally i s = Inr ?s1"
    using ok by (simp add: tally_def bump_all)
  have "\<forall>i \<in> set is. in_bounds i (adj ?s1)"
    and "\<forall>r \<in> set (adj ?s1). \<forall>v \<in> set r. in_bounds v (indegre ?s1)"
    using Cons.prems by (simp_all add: in_bounds_def)
  from Cons.IH [OF this]
  have rest: "for_each is tally ?s1 =
      Inr (?s1\<lparr>indegre := map (\<lambda>v. indegre ?s1 ! v +
                   int (\<Sum>i\<leftarrow>is. count_list (adj ?s1 ! nat i) (int v)))
                 [0..<length (indegre ?s1)]\<rparr>)" .
  have "map (\<lambda>v. indegre ?s1 ! v + int (\<Sum>i\<leftarrow>is. count_list (adj ?s1 ! nat i) (int v)))
          [0..<length (indegre ?s1)]
      = map (\<lambda>v. indegre s ! v + int (\<Sum>j\<leftarrow>i # is. count_list (adj s ! nat j) (int v)))
          [0..<length (indegre s)]"
    by auto
  with one rest show ?case by simp
qed

subsection \<open>Lines 15 to 20\<close>

lemma seed_all:
  assumes "\<forall>i \<in> set is. in_bounds i (indegre s)"
  shows "for_each is seed s = Inr (s\<lparr>qu := qu s @ filter (\<lambda>i. indegre s ! nat i = 0) is\<rparr>)"
  using assms
proof (induction "is" arbitrary: s)
  case Nil
  then show ?case by simp
next
  case (Cons i "is")
  then show ?case by (simp add: seed_def)
qed

subsection \<open>The state on entry to the loop\<close>

lemma length_rows [simp]: "length (rows src dst n pre0) = nat n"
  by (simp add: rows_def)

lemma nth_rows: "u < nat n \<Longrightarrow> rows src dst n pre0 ! u = row_of src dst pre0 (int u)"
  by (simp add: rows_def)

lemma set_row_of: "set (row_of src dst pre0 u) = {p ! dst | p. p \<in> set pre0 \<and> p ! src = u}"
  by (auto simp: row_of_def)

lemma valid_input_pair:
  assumes "valid_input n pre0" and "p \<in> set pre0" and "k < 2"
  shows "k < length p" and "0 \<le> p ! k" and "p ! k < n"
proof -
  from assms(3) have "k = 0 \<or> k = 1" by auto
  with assms(1,2) show "k < length p" and "0 \<le> p ! k" and "p ! k < n"
    by (auto simp: valid_input_def)
qed

lemma closed_rows:
  assumes "valid_input n pre0" and "dst < 2"
  shows "closed_adj (rows src dst n pre0)"
  unfolding closed_adj_def
proof (intro ballI)
  fix r v
  assume "r \<in> set (rows src dst n pre0)" and v: "v \<in> set r"
  then obtain u where "r = row_of src dst pre0 (int u)"
    by (auto simp: rows_def)
  with v obtain p where "p \<in> set pre0" and "v = p ! dst"
    by (auto simp: set_row_of)
  with valid_input_pair [OF assms(1) _ assms(2)] have "0 \<le> v" and "v < n"
    by blast+
  then show "in_bounds v (rows src dst n pre0)"
    by (simp add: in_bounds_def)
qed

lemma prepare_rows:
  assumes v: "valid_input n pre0" and sd: "src < 2" "dst < 2"
  shows "prepare src dst n pre0 =
         Inr \<lparr>pre = pre0, adj = rows src dst n pre0,
              indegre = map (\<lambda>v. int (\<Sum>i\<leftarrow>[0..n - 1].
                               count_list (rows src dst n pre0 ! nat i) (int v))) [0..<nat n],
              qu = filter (\<lambda>i. (\<Sum>j\<leftarrow>[0..n - 1].
                               count_list (rows src dst n pre0 ! nat j) i) = 0) [0..n - 1],
              topo = [], pending = []\<rparr>"
proof -
  let ?A = "rows src dst n pre0"
  let ?s0 = "\<lparr>pre = pre0, adj = replicate (nat n) [], indegre = [], qu = [], topo = [],
              pending = []\<rparr>"
  from v have n: "0 \<le> n" by (simp add: valid_input_def)
  have "\<forall>p \<in> set pre0. src < length p \<and> dst < length p \<and> in_bounds (p ! src) (adj ?s0)"
    using valid_input_pair [OF v] sd n by (simp add: in_bounds_def)
  from build_rows [OF this]
  have b: "for_each pre0 (add_edge src dst) ?s0 = Inr (?s0\<lparr>adj := ?A\<rparr>)"
    by (simp add: rows_def)
  let ?s1 = "?s0\<lparr>adj := ?A, indegre := replicate (nat n) 0\<rparr>"
  have "\<forall>i \<in> set [0..n - 1]. in_bounds i (adj ?s1)"
    by (simp add: in_bounds_def)
  moreover have "\<forall>r \<in> set (adj ?s1). \<forall>v \<in> set r. in_bounds v (indegre ?s1)"
    using closed_rows [OF v sd(2), of src] by (simp add: closed_adj_def in_bounds_def)
  ultimately have t: "for_each [0..n - 1] tally ?s1 =
      Inr (?s1\<lparr>indegre := map (\<lambda>v. indegre ?s1 ! v +
                   int (\<Sum>i\<leftarrow>[0..n - 1]. count_list (adj ?s1 ! nat i) (int v)))
                 [0..<length (indegre ?s1)]\<rparr>)"
    by (rule tally_all)
  let ?D = "map (\<lambda>v. int (\<Sum>i\<leftarrow>[0..n - 1]. count_list (?A ! nat i) (int v))) [0..<nat n]"
  have "map (\<lambda>v. indegre ?s1 ! v +
                   int (\<Sum>i\<leftarrow>[0..n - 1]. count_list (adj ?s1 ! nat i) (int v)))
                 [0..<length (indegre ?s1)] = ?D"
    by simp
  with t have t': "for_each [0..n - 1] tally ?s1 = Inr (?s1\<lparr>indegre := ?D\<rparr>)"
    by simp
  let ?s2 = "?s1\<lparr>indegre := ?D\<rparr>"
  have "\<forall>i \<in> set [0..n - 1]. in_bounds i (indegre ?s2)"
    by (simp add: in_bounds_def)
  from seed_all [OF this]
  have q: "for_each [0..n - 1] seed ?s2 =
      Inr (?s2\<lparr>qu := qu ?s2 @ filter (\<lambda>i. indegre ?s2 ! nat i = 0) [0..n - 1]\<rparr>)" .
  have "filter (\<lambda>i. indegre ?s2 ! nat i = 0) [0..n - 1]
      = filter (\<lambda>i. (\<Sum>j\<leftarrow>[0..n - 1]. count_list (?A ! nat j) i) = 0) [0..n - 1]"
    by (rule filter_cong) auto
  with q have q': "for_each [0..n - 1] seed ?s2 =
      Inr (?s2\<lparr>qu := filter (\<lambda>i. (\<Sum>j\<leftarrow>[0..n - 1]. count_list (?A ! nat j) i) = 0) [0..n - 1]\<rparr>)"
    by simp
  from n b t' q' show ?thesis
    by (simp add: prepare_def)
qed

lemma in_bounds_set: "{u. in_bounds u xs} = {0..int (length xs) - 1}"
  by (auto simp: in_bounds_def)

lemma unmet_empty:
  "int (unmet A {} v) = int (\<Sum>i\<leftarrow>[0..int (length A) - 1]. count_list (A ! nat i) v)"
  by (simp add: unmet_def in_bounds_set sum_list_distinct_conv_sum_set)

lemma kahn_inv_entry:
  assumes v: "valid_input n pre0" and sd: "src < 2" "dst < 2"
    and p: "prepare src dst n pre0 = Inr s"
  shows "kahn_inv (rows src dst n pre0) s"
proof -
  let ?A = "rows src dst n pre0"
  from v have n: "0 \<le> n" by (simp add: valid_input_def)
  then have len: "int (length ?A) = n" by simp
  note s = p [unfolded prepare_rows [OF v sd], simplified, symmetric]
  have c: "indegre s ! nat w = int (unmet ?A {} w)" if "in_bounds w ?A" for w
  proof -
    from that n have "nat w < nat n" "int (nat w) = w"
      by (auto simp: in_bounds_def)
    then show ?thesis
      by (simp add: s unmet_empty len del: length_rows)
  qed
  have d: "(w \<in> set (pushed s)) = (indegre s ! nat w = 0)" if "in_bounds w ?A" for w
  proof -
    from that n have "nat w < nat n" "int (nat w) = w" "0 \<le> w" "w \<le> n - 1"
      by (auto simp: in_bounds_def)
    then show ?thesis
      by (simp add: s pushed_def)
  qed
  have "distinct (pushed s)" "\<forall>w \<in> set (pushed s). in_bounds w ?A"
    using n by (auto simp: s pushed_def in_bounds_def)
  moreover have "adj s = ?A" "length (indegre s) = length ?A" "pending s = []" "topo s = []"
    by (simp_all add: s)
  ultimately show ?thesis
    using c d by (simp add: kahn_inv_def)
qed

subsection \<open>One move keeps the invariant\<close>

lemma finite_in_bounds [simp]: "finite {u. in_bounds u xs \<and> P u}"
  by (rule finite_subset [of _ "{0..int (length xs) - 1}"]) (auto simp: in_bounds_def)

lemma unmet_insert:
  assumes "in_bounds t A" and "t \<notin> D"
  shows "unmet A D v = unmet A (insert t D) v + count_list (A ! nat t) v"
proof -
  have "{u. in_bounds u A \<and> u \<notin> D} = insert t {u. in_bounds u A \<and> u \<notin> insert t D}"
    using assms by auto
  then show ?thesis
    by (simp add: unmet_def)
qed

lemma unmet_zero:
  "unmet A D v = 0 \<longleftrightarrow> (\<forall>u. (u, v) \<in> edges_of A \<longrightarrow> u \<in> D)"
  by (auto simp: unmet_def edges_of_def count_list_0_iff)

lemma kahn_invI:
  assumes "adj s = A" and "length (indegre s) = length A"
    and "distinct (pushed s)"
    and "\<And>v. v \<in> set (pushed s) \<Longrightarrow> in_bounds v A"
    and "\<And>v. v \<in> set (pending s) \<Longrightarrow> in_bounds v A"
    and "\<And>v. in_bounds v A \<Longrightarrow>
           indegre s ! nat v = int (unmet A (set (topo s)) v + count_list (pending s) v)"
    and "\<And>v. in_bounds v A \<Longrightarrow> (v \<in> set (pushed s)) = (indegre s ! nat v = 0)"
    and "\<And>j u. j < length (topo s) \<Longrightarrow> (u, topo s ! j) \<in> edges_of A \<Longrightarrow>
           \<exists>i < j. topo s ! i = u"
  shows "kahn_inv A s"
  using assms unfolding kahn_inv_def by blast

lemma kahn_invD:
  assumes "kahn_inv A s"
  shows "adj s = A" and "length (indegre s) = length A"
    and "distinct (pushed s)"
    and "\<And>v. v \<in> set (pushed s) \<Longrightarrow> in_bounds v A"
    and "\<And>v. v \<in> set (pending s) \<Longrightarrow> in_bounds v A"
    and "\<And>v. in_bounds v A \<Longrightarrow>
           indegre s ! nat v = int (unmet A (set (topo s)) v + count_list (pending s) v)"
    and "\<And>v. in_bounds v A \<Longrightarrow> (v \<in> set (pushed s)) = (indegre s ! nat v = 0)"
    and "\<And>j u. j < length (topo s) \<Longrightarrow> (u, topo s ! j) \<in> edges_of A \<Longrightarrow>
           \<exists>i < j. topo s ! i = u"
  using assms unfolding kahn_inv_def by blast+

lemma kahn_inv_pop:
  assumes inv: "kahn_inv A s" and cl: "closed_adj A"
    and pd: "pending s = []" and q: "qu s = t # rest"
  shows "\<exists>s'. pop_front t rest s = Inr s' \<and> kahn_inv A s' \<and> pre s' = pre s \<and>
              pushed s' = pushed s \<and> indegre s' = indegre s"
proof -
  note I = kahn_invD [OF inv]
  from q have tin: "t \<in> set (pushed s)" by (simp add: pushed_def)
  then have tb: "in_bounds t A" by (rule I(4))
  from I(3) q have tnew: "t \<notin> set (topo s)" by (simp add: pushed_def)
  define s' where "s' = s\<lparr>topo := topo s @ [t], qu := rest, pending := A ! nat t\<rparr>"
  have pop: "pop_front t rest s = Inr s'"
    using tb I(1) by (simp add: pop_front_def s'_def)
  have f: "adj s' = adj s" "indegre s' = indegre s" "topo s' = topo s @ [t]"
    "pending s' = A ! nat t" "pre s' = pre s"
    by (simp_all add: s'_def)
  have same: "pushed s' = pushed s"
    using q by (simp add: pushed_def s'_def)
  from tin I(7) [OF tb] have "indegre s ! nat t = 0" by blast
  with I(6) [OF tb] have "int (unmet A (set (topo s)) t + count_list (pending s) t) = 0"
    by (simp only:)
  then have zero: "unmet A (set (topo s)) t = 0" by simp
  have "kahn_inv A s'"
  proof (rule kahn_invI)
    show "adj s' = A" "length (indegre s') = length A"
      using I(1,2) by (simp_all add: f)
    show "distinct (pushed s')"
      using I(3) by (simp add: same)
    show "in_bounds v A" if "v \<in> set (pushed s')" for v
      using that I(4) by (simp add: same)
    show "in_bounds v A" if "v \<in> set (pending s')" for v
    proof -
      from tb have "A ! nat t \<in> set A" by (simp add: in_bounds_nat)
      moreover from that have "v \<in> set (A ! nat t)" by (simp only: f)
      ultimately show ?thesis using cl unfolding closed_adj_def by blast
    qed
    show "indegre s' ! nat v = int (unmet A (set (topo s')) v + count_list (pending s') v)"
      if "in_bounds v A" for v
    proof -
      have "set (topo s') = insert t (set (topo s))" by (simp add: f)
      with unmet_insert [OF tb tnew, of v]
      have "unmet A (set (topo s)) v = unmet A (set (topo s')) v + count_list (pending s') v"
        by (simp only: f)
      with I(6) [OF that] pd show ?thesis by (simp only: f list.simps count_list.simps add_0_right)
    qed
    show "(v \<in> set (pushed s')) = (indegre s' ! nat v = 0)" if "in_bounds v A" for v
      using I(7) [OF that] by (simp add: same f)
    show "\<exists>i < j. topo s' ! i = u"
      if j: "j < length (topo s')" and e: "(u, topo s' ! j) \<in> edges_of A" for j u
    proof (cases "j < length (topo s)")
      case True
      with e have "(u, topo s ! j) \<in> edges_of A" by (simp add: nth_append f)
      from I(8) [OF True this] obtain i where i: "i < j" "topo s ! i = u" by blast
      with True have "topo s' ! i = u" by (simp add: nth_append f)
      with i show ?thesis by blast
    next
      case False
      with j have jl: "j = length (topo s)" by (simp add: f)
      with e have "(u, t) \<in> edges_of A" by (simp add: f)
      with zero have "u \<in> set (topo s)" by (simp add: unmet_zero)
      then obtain i where i: "i < length (topo s)" "topo s ! i = u"
        by (auto simp: in_set_conv_nth)
      then have "topo s' ! i = u" by (simp add: nth_append f)
      with i jl show ?thesis by blast
    qed
  qed
  with pop same f show ?thesis by simp
qed

lemma kahn_inv_relax:
  assumes inv: "kahn_inv A s" and pd: "pending s = it # w"
  shows "\<exists>s'. relax it (s\<lparr>pending := w\<rparr>) = Inr s' \<and> kahn_inv A s' \<and> pre s' = pre s \<and>
              topo s' = topo s \<and>
              indegre s' = (indegre s)[nat it := indegre s ! nat it - 1] \<and>
              0 < indegre s ! nat it \<and>
              pushed s' = (if indegre s ! nat it = 1 then pushed s @ [it] else pushed s)"
proof -
  note I = kahn_invD [OF inv]
  let ?c = "indegre s ! nat it"
  from pd have ib: "in_bounds it A" by (simp add: I(5))
  then have k: "nat it < length (indegre s)" "0 \<le> it"
    using I(2) by (auto simp: in_bounds_def)
  from I(6) [OF ib] pd have pos: "0 < ?c" by simp
  with I(7) [OF ib] have fresh: "it \<notin> set (pushed s)" by simp
  let ?d = "(indegre s)[nat it := ?c - 1]"
  define s' where
    "s' = s\<lparr>pending := w, indegre := ?d, qu := (if ?c - 1 = 0 then qu s @ [it] else qu s)\<rparr>"
  have rl: "relax it (s\<lparr>pending := w\<rparr>) = Inr s'"
    using ib I(2) k by (simp add: relax_def in_bounds_def Let_def s'_def)
  have f: "adj s' = adj s" "indegre s' = ?d" "topo s' = topo s" "pending s' = w"
    "pre s' = pre s"
    by (simp_all add: s'_def)
  have ps: "pushed s' = (if ?c = 1 then pushed s @ [it] else pushed s)"
    by (simp add: pushed_def s'_def)
  have other: "?d ! nat v = indegre s ! nat v" if "in_bounds v A" "v \<noteq> it" for v
  proof -
    from that k have "nat v \<noteq> nat it" by (auto simp: in_bounds_def)
    then show ?thesis by simp
  qed
  have "kahn_inv A s'"
  proof (rule kahn_invI)
    show "adj s' = A" "length (indegre s') = length A"
      using I(1,2) by (simp_all add: f)
    show "distinct (pushed s')"
      using I(3) fresh by (simp add: ps)
    show "in_bounds v A" if "v \<in> set (pushed s')" for v
      using that I(4) ib by (auto simp: ps split: if_splits)
    show "in_bounds v A" if "v \<in> set (pending s')" for v
      using that I(5) pd by (simp add: f)
    show "indegre s' ! nat v = int (unmet A (set (topo s')) v + count_list (pending s') v)"
      if "in_bounds v A" for v
    proof (cases "v = it")
      case True
      with I(6) [OF ib] pd k show ?thesis by (simp add: f)
    next
      case False
      with I(6) [OF that] pd other [OF that False] show ?thesis by (simp add: f)
    qed
    show "(v \<in> set (pushed s')) = (indegre s' ! nat v = 0)" if "in_bounds v A" for v
    proof (cases "v = it")
      case True
      with fresh k show ?thesis by (auto simp: ps f)
    next
      case False
      with I(7) [OF that] other [OF that False] show ?thesis by (auto simp: ps f)
    qed
    show "\<exists>i < j. topo s' ! i = u"
      if "j < length (topo s')" and "(u, topo s' ! j) \<in> edges_of A" for j u
      using that I(8) by (simp add: f)
  qed
  with rl ps pos f show ?thesis by simp
qed

lemma kahn_inv_step:
  assumes inv: "kahn_inv A s" and cl: "closed_adj A"
  shows "(step s = None \<and> pending s = [] \<and> qu s = []) \<or>
         (\<exists>s'. step s = Some (Inr s') \<and> kahn_inv A s' \<and> pre s' = pre s \<and> push_rule s s')"
proof (cases "pending s")
  case Nil
  show ?thesis
  proof (cases "qu s")
    case Nil
    with \<open>pending s = []\<close> show ?thesis by (simp add: step_def)
  next
    case (Cons t rest)
    from kahn_inv_pop [OF inv cl \<open>pending s = []\<close> Cons] obtain s' where
      r: "pop_front t rest s = Inr s'" and i: "kahn_inv A s'" and p: "pre s' = pre s"
      and ps: "pushed s' = pushed s"
      by blast
    from ps have "push_rule s s'" by (simp add: push_rule_def)
    moreover from r Cons \<open>pending s = []\<close> have "step s = Some (Inr s')"
      by (simp add: step_def)
    ultimately show ?thesis using i p by blast
  qed
next
  case (Cons it w)
  from kahn_inv_relax [OF inv Cons] obtain s' where
    r: "relax it (s\<lparr>pending := w\<rparr>) = Inr s'" and i: "kahn_inv A s'" and p: "pre s' = pre s"
    and d: "indegre s' = (indegre s)[nat it := indegre s ! nat it - 1]"
    and ps: "pushed s' = (if indegre s ! nat it = 1 then pushed s @ [it] else pushed s)"
    by blast
  from kahn_invD(5) [OF inv, of it] Cons have "in_bounds it A" by simp
  with kahn_invD(2) [OF inv] have k: "nat it < length (indegre s)"
    by (simp add: in_bounds_nat)
  have "push_rule s s'"
  proof (cases "indegre s ! nat it = 1")
    case True
    with d k have "indegre s' ! nat it = 0" by simp
    with True ps show ?thesis unfolding push_rule_def by auto
  next
    case False
    with ps show ?thesis by (simp add: push_rule_def)
  qed
  moreover from r Cons have "step s = Some (Inr s')"
    by (simp add: step_def)
  ultimately show ?thesis using i p by blast
qed

subsection \<open>The whole loop\<close>

lemma drain_final:
  assumes "kahn_inv A s" and "closed_adj A"
  shows "\<exists>s'. drain s = Inr s' \<and> kahn_inv A s' \<and> pending s' = [] \<and> qu s' = [] \<and>
              pre s' = pre s \<and> moves\<^sup>*\<^sup>* s s'"
  using assms
proof (induction s rule: drain.induct)
  case (1 s)
  from kahn_inv_step [OF "1.prems"] show ?case
  proof (elim disjE conjE exE)
    assume "step s = None" "pending s = []" "qu s = []"
    with "1.prems" show ?thesis
      by (auto simp: drain.simps [of s])
  next
    fix s1
    assume st: "step s = Some (Inr s1)" and inv: "kahn_inv A s1" and p: "pre s1 = pre s"
    from "1.IH" [OF st refl inv "1.prems"(2)] obtain s' where
      d: "drain s1 = Inr s'" and r: "kahn_inv A s'" "pending s' = []" "qu s' = []"
      and p': "pre s' = pre s1" and m: "moves\<^sup>*\<^sup>* s1 s'"
      by blast
    from st have "moves s s1" by (simp add: moves_def)
    from this m have "moves\<^sup>*\<^sup>* s s'" by (rule converse_rtranclp_into_rtranclp)
    moreover from st d have "drain s = Inr s'"
      by (simp add: drain.simps [of s])
    ultimately show ?thesis using r p p' by simp
  qed
qed

lemma reach_inv:
  assumes "moves\<^sup>*\<^sup>* s0 s" and "kahn_inv A s0" and "closed_adj A"
  shows "kahn_inv A s"
  using assms
proof (induction rule: rtranclp_induct)
  case base
  then show ?case by simp
next
  case (step s s')
  then have "kahn_inv A s" by simp
  from kahn_inv_step [OF this step.prems(2)] step.hyps(2) show ?case
    by (auto simp: moves_def)
qed

lemma reach_push_rule:
  assumes "moves\<^sup>*\<^sup>* s0 s" and "kahn_inv A s0" and "closed_adj A" and "moves s s'"
  shows "push_rule s s'"
proof -
  from reach_inv [OF assms(1-3)] have "kahn_inv A s" .
  from kahn_inv_step [OF this assms(3)] assms(4) show ?thesis
    by (auto simp: moves_def)
qed

lemma kahn_inv_tidy:
  assumes "kahn_inv A s"
  shows "tidy (int (length A)) s"
proof -
  note I = kahn_invD [OF assms]
  have "0 \<le> c" if "c \<in> set (indegre s)" for c
  proof -
    from that I(2) obtain k where k: "k < length A" "c = indegre s ! k"
      by (auto simp: in_set_conv_nth)
    then have "in_bounds (int k) A" by simp
    from I(6) [OF this] k show ?thesis by simp
  qed
  moreover have "(v \<in> set (pushed s)) = (indegre s ! nat v = 0)"
    if "0 \<le> v" "v < int (length A)" for v
    using that I(7) [of v] by (simp add: in_bounds_def)
  ultimately show ?thesis
    using I(3) by (simp add: tidy_def)
qed

subsection \<open>The final sequence and the graph\<close>

lemma topo_subset:
  assumes "kahn_inv A s"
  shows "distinct (topo s)" and "set (topo s) \<subseteq> {u. in_bounds u A}"
  using kahn_invD(3,4) [OF assms] by (auto simp: pushed_def)

lemma card_in_bounds: "card {u. in_bounds u A} = length A"
  by (simp add: in_bounds_set)

lemma topo_full_iff:
  assumes "kahn_inv A s"
  shows "length (topo s) = length A \<longleftrightarrow> set (topo s) = {u. in_bounds u A}"
proof
  assume "length (topo s) = length A"
  with topo_subset [OF assms] have "card (set (topo s)) = card {u. in_bounds u A}"
    by (simp add: distinct_card card_in_bounds)
  with topo_subset(2) [OF assms] show "set (topo s) = {u. in_bounds u A}"
    by (intro card_subset_eq) (simp_all add: in_bounds_set)
next
  assume "set (topo s) = {u. in_bounds u A}"
  then have "card (set (topo s)) = length A" by (simp add: card_in_bounds)
  with topo_subset(1) [OF assms] show "length (topo s) = length A"
    by (simp add: distinct_card)
qed

lemma edges_of_target:
  assumes "closed_adj A" and "(u, v) \<in> edges_of A"
  shows "in_bounds u A" and "in_bounds v A"
proof -
  from assms(2) show u: "in_bounds u A" by (simp add: edges_of_def)
  then have "A ! nat u \<in> set A" by (simp add: in_bounds_nat)
  with assms show "in_bounds v A" by (auto simp: closed_adj_def edges_of_def)
qed

lemma finite_edges_of:
  assumes "closed_adj A"
  shows "finite (edges_of A)"
proof (rule finite_subset)
  show "edges_of A \<subseteq> {u. in_bounds u A} \<times> {u. in_bounds u A}"
    using edges_of_target [OF assms] by auto
  show "finite ({u. in_bounds u A} \<times> {u. in_bounds u A})"
    by (simp add: in_bounds_set)
qed

lemma acyclic_topo_full:
  assumes inv: "kahn_inv A s" and cl: "closed_adj A"
    and fin: "pending s = []" "qu s = []"
    and ac: "acyclic (edges_of A)"
  shows "length (topo s) = length A"
proof -
  note I = kahn_invD [OF inv]
  let ?S = "{v. in_bounds v A \<and> v \<notin> set (topo s)}"
  have "?S = {}"
  proof (rule ccontr)
    assume "?S \<noteq> {}"
    then obtain x where x: "x \<in> ?S" by blast
    from finite_acyclic_wf [OF finite_edges_of [OF cl] ac] have "wf (edges_of A)" .
    from wfE_min [OF this x] obtain z where
      z: "z \<in> ?S" and min: "\<And>y. (y, z) \<in> edges_of A \<Longrightarrow> y \<notin> ?S"
      by blast
    from z have zb: "in_bounds z A" and zt: "z \<notin> set (topo s)" by simp_all
    have "u \<in> set (topo s)" if "(u, z) \<in> edges_of A" for u
      using min [OF that] edges_of_target(1) [OF cl that] by simp
    then have "unmet A (set (topo s)) z = 0"
      by (simp add: unmet_zero)
    with I(6) [OF zb] fin have "indegre s ! nat z = 0" by simp
    with I(7) [OF zb] fin have "z \<in> set (topo s)" by (simp add: pushed_def)
    with zt show False by contradiction
  qed
  with topo_subset(2) [OF inv] have "set (topo s) = {u. in_bounds u A}" by blast
  with topo_full_iff [OF inv] show ?thesis by simp
qed

lemma topo_full_before:
  assumes inv: "kahn_inv A s" and cl: "closed_adj A"
    and full: "length (topo s) = length A"
    and e: "(u, v) \<in> edges_of A"
  shows "before (topo s) u v"
proof -
  from edges_of_target(2) [OF cl e] topo_full_iff [OF inv] full
  have "v \<in> set (topo s)" by simp
  then obtain j where j: "j < length (topo s)" "topo s ! j = v"
    by (auto simp: in_set_conv_nth)
  with e have "(u, topo s ! j) \<in> edges_of A" by simp
  from kahn_invD(8) [OF inv j(1) this] obtain i where "i < j" "topo s ! i = u" by blast
  with j show ?thesis unfolding before_def by blast
qed

lemma topo_full_acyclic:
  assumes inv: "kahn_inv A s" and cl: "closed_adj A"
    and full: "length (topo s) = length A"
  shows "acyclic (edges_of A)"
proof -
  define pos where "pos v = length (takeWhile (\<lambda>x. x \<noteq> v) (topo s))" for v
  have pos: "pos (topo s ! i) = i" if "i < length (topo s)" for i
  proof -
    have "takeWhile (\<lambda>x. x \<noteq> topo s ! i) (topo s) = take i (topo s)"
    proof (rule takeWhile_eq_take_P_nth)
      fix k assume "k < i" "k < length (topo s)"
      with that topo_subset(1) [OF inv] show "topo s ! k \<noteq> topo s ! i"
        by (simp add: nth_eq_iff_index_eq)
    qed (use that in simp)
    with that show ?thesis by (simp add: pos_def)
  qed
  have "edges_of A \<subseteq> measure pos"
  proof
    fix e assume "e \<in> edges_of A"
    then obtain u v where e: "e = (u, v)" "(u, v) \<in> edges_of A" by (cases e) simp
    from topo_full_before [OF inv cl full e(2)] obtain i j where
      "i < j" "j < length (topo s)" "topo s ! i = u" "topo s ! j = v"
      unfolding before_def by blast
    with pos [of i] pos [of j] e show "e \<in> measure pos" by simp
  qed
  from wf_subset [OF wf_measure this] show ?thesis by (rule wf_acyclic)
qed

subsection \<open>A whole run on a well-formed input\<close>

lemma edges_rows:
  assumes v: "valid_input n pre0" and sd: "src < 2" "dst < 2"
  shows "edges_of (rows src dst n pre0) = (\<lambda>p. (p ! src, p ! dst)) ` set pre0"
proof (intro set_eqI iffI)
  fix e assume "e \<in> edges_of (rows src dst n pre0)"
  then obtain u w where e: "e = (u, w)" and u: "in_bounds u (rows src dst n pre0)"
    and w: "w \<in> set (rows src dst n pre0 ! nat u)"
    by (auto simp: edges_of_def)
  from v have "0 \<le> n" by (simp add: valid_input_def)
  with u have "nat u < nat n" "int (nat u) = u" by (auto simp: in_bounds_def)
  with w have "w \<in> set (row_of src dst pre0 u)" by (simp add: nth_rows)
  with e show "e \<in> (\<lambda>p. (p ! src, p ! dst)) ` set pre0"
    by (auto simp: set_row_of)
next
  fix e assume "e \<in> (\<lambda>p. (p ! src, p ! dst)) ` set pre0"
  then obtain p where p: "p \<in> set pre0" and e: "e = (p ! src, p ! dst)" by blast
  from valid_input_pair(2,3) [OF v p sd(1)]
  have u: "nat (p ! src) < nat n" "int (nat (p ! src)) = p ! src"
    and "in_bounds (p ! src) (rows src dst n pre0)"
    by (simp_all add: in_bounds_def)
  note this(3)
  moreover from p have "p ! dst \<in> set (row_of src dst pre0 (p ! src))"
    by (auto simp: set_row_of)
  with u have "p ! dst \<in> set (rows src dst n pre0 ! nat (p ! src))" by (simp add: nth_rows)
  ultimately show "e \<in> edges_of (rows src dst n pre0)"
    by (simp add: e edges_of_def)
qed

lemma resolve_run:
  assumes v: "valid_input n pre0" and sd: "src < 2" "dst < 2"
  shows "\<exists>s0 s. prepare src dst n pre0 = Inr s0 \<and> kahn_inv (rows src dst n pre0) s0 \<and>
           pre s0 = pre0 \<and>
           resolve src dst n pre0 = Inr s \<and> kahn_inv (rows src dst n pre0) s \<and>
           pending s = [] \<and> qu s = [] \<and> pre s = pre0 \<and> moves\<^sup>*\<^sup>* s0 s"
proof -
  from prepare_rows [OF v sd] obtain s0 where
    p: "prepare src dst n pre0 = Inr s0" and p0: "pre s0 = pre0"
    by simp
  from kahn_inv_entry [OF v sd p] have i0: "kahn_inv (rows src dst n pre0) s0" .
  from drain_final [OF i0 closed_rows [OF v sd(2)]] obtain s where
    "drain s0 = Inr s" "kahn_inv (rows src dst n pre0) s" "pending s = []" "qu s = []"
    "pre s = pre s0" "moves\<^sup>*\<^sup>* s0 s"
    by blast
  with p p0 i0 show ?thesis by (simp add: resolve_def)
qed

lemma resolve_sound:
  assumes v: "valid_input n pre0" and sd: "src < 2" "dst < 2"
  shows "\<exists>s. resolve src dst n pre0 = Inr s \<and> pre s = pre0 \<and>
           distinct (topo s) \<and> set (topo s) \<subseteq> {0..n - 1} \<and>
           (int (length (topo s)) = n) = acyclic ((\<lambda>p. (p ! src, p ! dst)) ` set pre0) \<and>
           (int (length (topo s)) = n \<longrightarrow>
              (\<forall>p \<in> set pre0. before (topo s) (p ! src) (p ! dst)))"
proof -
  let ?A = "rows src dst n pre0"
  from v have n: "0 \<le> n" by (simp add: valid_input_def)
  then have len: "int (length (topo s)) = n \<longleftrightarrow> length (topo s) = length ?A" for s
    by auto
  note cl = closed_rows [OF v sd(2), of src]
  note ed = edges_rows [OF v sd]
  from resolve_run [OF v sd] obtain s where
    r: "resolve src dst n pre0 = Inr s" and inv: "kahn_inv ?A s"
    and fin: "pending s = []" "qu s = []" and p: "pre s = pre0"
    by blast
  have "set (topo s) \<subseteq> {0..n - 1}"
    using topo_subset(2) [OF inv] n by (simp add: in_bounds_set)
  moreover have "(int (length (topo s)) = n) = acyclic ((\<lambda>p. (p ! src, p ! dst)) ` set pre0)"
    using acyclic_topo_full [OF inv cl fin] topo_full_acyclic [OF inv cl]
    unfolding len ed by blast
  moreover have "before (topo s) (p ! src) (p ! dst)"
    if "int (length (topo s)) = n" "p \<in> set pre0" for p
  proof -
    from that(2) have "(p ! src, p ! dst) \<in> edges_of ?A" unfolding ed by blast
    with that(1) show ?thesis
      unfolding len by (rule topo_full_before [OF inv cl])
  qed
  ultimately show ?thesis
    using r p topo_subset(1) [OF inv] by blast
qed

lemma prereq_graph_converse:
  "(\<lambda>p. (p ! 0, p ! 1)) ` set pre0 = (prereq_graph pre0)\<inverse>"
  by (auto simp: prereq_graph_def)

lemma canFinish_verdict:
  assumes "valid_input n pre0"
  shows "canFinish n pre0 = Inr (acyclic (prereq_graph pre0))"
proof -
  have sd: "(0::nat) < 2" "(1::nat) < 2" by simp_all
  from resolve_sound [OF assms sd] obtain s where
    r: "resolve 0 1 n pre0 = Inr s"
    and a: "(int (length (topo s)) = n) = acyclic ((\<lambda>p. (p ! 0, p ! 1)) ` set pre0)"
    by blast
  have "acyclic ((\<lambda>p. (p ! 0, p ! 1)) ` set pre0) = acyclic (prereq_graph pre0)"
    by (simp only: prereq_graph_converse acyclic_converse)
  with a have "(int (length (topo s)) = n) = acyclic (prereq_graph pre0)" by (simp only:)
  with r show ?thesis
    by (simp add: canFinish_def)
qed

lemma findOrder_result:
  assumes "valid_input n pre0"
  shows "\<exists>t. findOrder n pre0 = Inr t \<and> distinct t \<and> set t \<subseteq> {0..n - 1} \<and>
           (if acyclic (prereq_graph pre0)
            then int (length t) = n \<and> (\<forall>p \<in> set pre0. before t (p ! 1) (p ! 0))
            else t = [])"
proof -
  have sd: "(1::nat) < 2" "(0::nat) < 2" by simp_all
  from resolve_sound [OF assms sd] obtain s where
    r: "resolve 1 0 n pre0 = Inr s" and d: "distinct (topo s)" "set (topo s) \<subseteq> {0..n - 1}"
    and a: "(int (length (topo s)) = n) = acyclic (prereq_graph pre0)"
    and b: "int (length (topo s)) = n \<longrightarrow> (\<forall>p \<in> set pre0. before (topo s) (p ! 1) (p ! 0))"
    unfolding prereq_graph_def by blast
  show ?thesis
  proof (cases "acyclic (prereq_graph pre0)")
    case True
    with a have "int (length (topo s)) = n" by simp
    with r d b True show ?thesis by (simp add: findOrder_def)
  next
    case False
    with a have "int (length (topo s)) \<noteq> n" by simp
    with r False show ?thesis by (simp add: findOrder_def)
  qed
qed

lemma acyclic_no_edges: "acyclic {}"
  by (simp add: acyclic_def)

subsection \<open>A run without pairs\<close>

lemma drain_no_edges:
  assumes "pending s = []" and "\<forall>x \<in> set (qu s). in_bounds x (adj s) \<and> adj s ! nat x = []"
  shows "drain s = Inr (s\<lparr>topo := topo s @ qu s, qu := []\<rparr>)"
  using assms
proof (induction "qu s" arbitrary: s)
  case Nil
  then have "step s = None" by (simp add: step_def)
  with Nil show ?case by (simp add: drain.simps [of s])
next
  case (Cons t rest)
  let ?s1 = "s\<lparr>topo := topo s @ [t], qu := rest\<rparr>"
  from Cons.hyps(2) [symmetric] Cons.prems have "pop_front t rest s = Inr (?s1\<lparr>pending := pending s\<rparr>)"
    by (simp add: pop_front_def)
  then have "pop_front t rest s = Inr ?s1" by simp
  with Cons.hyps(2) [symmetric] Cons.prems(1) have st: "step s = Some (Inr ?s1)"
    by (simp add: step_def)
  have "drain ?s1 = Inr (?s1\<lparr>topo := topo ?s1 @ qu ?s1, qu := []\<rparr>)"
  proof (rule Cons.hyps(1))
    show "rest = qu ?s1" by simp
    show "pending ?s1 = []" using Cons.prems(1) by simp
    show "\<forall>x \<in> set (qu ?s1). in_bounds x (adj ?s1) \<and> adj ?s1 ! nat x = []"
      using Cons.prems(2) Cons.hyps(2) [symmetric] by simp
  qed
  with st Cons.hyps(2) [symmetric] show ?case
    by (simp add: drain.simps [of s])
qed

lemma rows_no_pairs: "rows src dst n [] = replicate (nat n) []"
  by (simp add: rows_def map_replicate_const)

lemma resolve_no_pairs:
  assumes "0 \<le> n" and sd: "src < 2" "dst < 2"
  shows "\<exists>s. resolve src dst n [] = Inr s \<and> topo s = [0..n - 1]"
proof -
  have v: "valid_input n []" using assms(1) by (simp add: valid_input_def)
  define s0 :: locals where
    "s0 = \<lparr>pre = [], adj = replicate (nat n) [], indegre = replicate (nat n) 0,
           qu = [0..n - 1], topo = [], pending = []\<rparr>"
  have z: "(\<Sum>i\<leftarrow>[0..n - 1]. count_list (replicate (nat n) [] ! nat i) w) = 0" for w :: int
    by auto
  have "map (\<lambda>v. 0 :: int) [0..<nat n] = replicate (nat n) 0"
    by (simp add: map_replicate_const)
  with prepare_rows [OF v sd] have p: "prepare src dst n [] = Inr s0"
    by (simp add: rows_no_pairs s0_def z)
  have "drain s0 = Inr (s0\<lparr>topo := topo s0 @ qu s0, qu := []\<rparr>)"
  proof (rule drain_no_edges)
    show "pending s0 = []" by (simp add: s0_def)
    show "\<forall>x \<in> set (qu s0). in_bounds x (adj s0) \<and> adj s0 ! nat x = []"
      by (auto simp: s0_def in_bounds_def)
  qed
  with p show ?thesis by (simp add: resolve_def s0_def)
qed

subsection \<open>The closest-person comparison on words\<close>

lemma sint_abs32:
  assumes "- (2 ^ 31) < sint v"
  shows "sint (abs32 v) = \<bar>sint v\<bar>"
proof (cases "v <s 0")
  case True
  then have neg: "sint v < 0" by (simp add: word_sless_alt)
  have "sint (- v) = signed_take_bit 31 (- sint v)"
    by (simp add: sint_word_minus)
  also have "\<dots> = - sint v"
    using assms sint_lt [of v] neg by (intro signed_take_bit_int_eq_self) simp_all
  finally show ?thesis using True neg by (simp add: abs32_def)
next
  case False
  then have "0 \<le> sint v" by (simp add: word_sless_alt)
  with False show ?thesis by (simp add: abs32_def)
qed

lemma sint_diff_exact:
  fixes a b :: "32 word"
  assumes "representable (sint a - sint b)"
  shows "sint (a - b) = sint a - sint b"
proof -
  have "sint (a - b) = signed_take_bit 31 (sint a - sint b)"
    by (simp add: sint_word_diff)
  also have "\<dots> = sint a - sint b"
    using assms by (intro signed_take_bit_int_eq_self) (simp_all add: representable_def)
  finally show ?thesis .
qed

subsection \<open>The rows and the order of visits of the two variants\<close>

lemma adjacency_rows:
  assumes "valid_input n pre0" and "src < 2" "dst < 2"
  shows "adjacency src dst n pre0 = Inr (rows src dst n pre0)"
  by (simp add: adjacency_def prepare_rows [OF assms])

lemma cyclic_positive:
  assumes "valid_input n pre0" and "\<not> acyclic (prereq_graph pre0)"
  shows "0 < n"
proof -
  from assms(2) have "pre0 \<noteq> []"
    by (auto simp: prereq_graph_def acyclic_no_edges)
  then obtain p where "p \<in> set pre0" by (cases pre0) auto
  with assms(1) show ?thesis by (auto simp: valid_input_def)
qed

text \<open>Nothing after line 7 reads \<open>pre\<close>.\<close>

lemma step_pre:
  "step (s\<lparr>pre := q\<rparr>) = map_option (map_sum id (\<lambda>s. s\<lparr>pre := q\<rparr>)) (step s)"
  by (simp add: step_def relax_def pop_front_def Let_def split: list.split)

lemma drain_pre:
  "drain (s\<lparr>pre := q\<rparr>) = map_sum id (\<lambda>s. s\<lparr>pre := q\<rparr>) (drain s)"
proof (induction s rule: drain.induct)
  case (1 s)
  show ?case
  proof (cases "step s")
    case None
    then show ?thesis
      by (simp add: drain.simps [of s] drain.simps [of "s\<lparr>pre := q\<rparr>"] step_pre)
  next
    case (Some r)
    show ?thesis
    proof (cases r)
      case (Inl e)
      with Some show ?thesis
        by (simp add: drain.simps [of s] drain.simps [of "s\<lparr>pre := q\<rparr>"] step_pre)
    next
      case (Inr s')
      with Some "1.IH" [OF Some Inr] show ?thesis
        by (simp add: drain.simps [of s] drain.simps [of "s\<lparr>pre := q\<rparr>"] step_pre)
    qed
  qed
qed

lemma valid_input_swap:
  assumes "valid_input n pre0"
  shows "valid_input n (map rev pre0)"
proof -
  have "rev p ! 0 = p ! 1 \<and> rev p ! 1 = p ! 0" if "length p = 2" for p :: "int list"
    using that by (simp add: rev_nth)
  with assms show ?thesis
    by (auto simp: valid_input_def)
qed

lemma rows_swap:
  assumes "valid_input n pre0"
  shows "rows 1 0 n (map rev pre0) = rows 0 1 n pre0"
proof -
  have sw: "rev p ! 0 = p ! 1" "rev p ! 1 = p ! 0" if "p \<in> set pre0" for p
  proof -
    from assms that have "length p = 2" by (simp add: valid_input_def)
    then show "rev p ! 0 = p ! 1" "rev p ! 1 = p ! 0" by (simp_all add: rev_nth)
  qed
  have "row_of 1 0 (map rev pre0) u = row_of 0 1 pre0 u" for u
  proof -
    have "filter ((\<lambda>p. p ! 1 = u) \<circ> rev) pre0 = filter (\<lambda>p. p ! 0 = u) pre0"
      by (rule filter_cong) (simp_all add: sw del: One_nat_def)
    moreover have "map ((\<lambda>p. p ! 0) \<circ> rev) (filter (\<lambda>p. p ! 0 = u) pre0)
                 = map (\<lambda>p. p ! 1) (filter (\<lambda>p. p ! 0 = u) pre0)"
      by (rule map_cong) (simp_all add: sw del: One_nat_def)
    ultimately show ?thesis
      by (simp only: row_of_def filter_map map_map)
  qed
  then show ?thesis by (simp add: rows_def)
qed

lemma visit_order_swap:
  assumes "valid_input n pre0"
  shows "visit_order 0 1 n pre0 = visit_order 1 0 n (map rev pre0)"
proof -
  have sd: "(0::nat) < 2" "(1::nat) < 2" by simp_all
  from prepare_rows [OF assms sd] obtain s0 where
    p: "prepare 0 1 n pre0 = Inr s0"
    by simp
  from prepare_rows [OF assms sd] prepare_rows [OF valid_input_swap [OF assms] sd(2,1)] p
  have p': "prepare 1 0 n (map rev pre0) = Inr (s0\<lparr>pre := map rev pre0\<rparr>)"
    by (simp only: rows_swap [OF assms]) auto
  show ?thesis
    unfolding visit_order_def resolve_def p p'
    by (cases "drain s0") (simp_all add: drain_pre)
qed

subsection \<open>No statement writes to the caller's list\<close>

lemma for_each_pre:
  assumes "\<And>x s s'. body x s = Inr s' \<Longrightarrow> pre s' = pre s"
    and "for_each xs body s = Inr s'"
  shows "pre s' = pre s"
  using assms(2)
proof (induction xs arbitrary: s)
  case Nil
  then show ?case by simp
next
  case (Cons x xs)
  from Cons.prems obtain s1 where b: "body x s = Inr s1" and r: "for_each xs body s1 = Inr s'"
    by (auto split: sum.splits)
  from Cons.IH [OF r] assms(1) [OF b] show ?case by simp
qed

lemma add_edge_pre: "add_edge src dst it s = Inr s' \<Longrightarrow> pre s' = pre s"
  by (auto simp: add_edge_def split: if_splits)

lemma bump_pre: "bump it s = Inr s' \<Longrightarrow> pre s' = pre s"
  by (auto simp: bump_def split: if_splits)

lemma tally_pre:
  assumes "tally i s = Inr s'"
  shows "pre s' = pre s"
proof -
  from assms have "for_each (adj s ! nat i) bump s = Inr s'"
    by (simp add: tally_def split: if_splits)
  with bump_pre show ?thesis by (rule for_each_pre)
qed

lemma seed_pre: "seed i s = Inr s' \<Longrightarrow> pre s' = pre s"
  by (auto simp: seed_def split: if_splits)

lemma prepare_pre:
  assumes "prepare src dst n pre0 = Inr s"
  shows "pre s = pre0"
proof -
  let ?s0 = "\<lparr>pre = pre0, adj = replicate (nat n) [], indegre = [], qu = [], topo = [],
              pending = []\<rparr>"
  from assms obtain s1 s2 where
    a: "for_each pre0 (add_edge src dst) ?s0 = Inr s1"
    and b: "for_each [0..n - 1] tally (s1\<lparr>indegre := replicate (nat n) 0\<rparr>) = Inr s2"
    and c: "for_each [0..n - 1] seed s2 = Inr s"
    by (auto simp: prepare_def and_then_def split: if_splits sum.splits)
  from for_each_pre [OF add_edge_pre a] have "pre s1 = pre0" by simp
  moreover from for_each_pre [OF tally_pre b] have "pre s2 = pre s1" by simp
  moreover from for_each_pre [OF seed_pre c] have "pre s = pre s2" .
  ultimately show ?thesis by simp
qed

lemma step_keeps_pre: "step s = Some (Inr s') \<Longrightarrow> pre s' = pre s"
  by (auto simp: step_def relax_def pop_front_def Let_def split: list.splits if_splits)

lemma drain_keeps_pre: "drain s = Inr s' \<Longrightarrow> pre s' = pre s"
proof (induction s rule: drain.induct)
  case (1 s)
  show ?case
  proof (cases "step s")
    case None
    with "1.prems" show ?thesis by (simp add: drain.simps [of s])
  next
    case (Some r)
    show ?thesis
    proof (cases r)
      case (Inl e)
      with Some "1.prems" show ?thesis by (simp add: drain.simps [of s])
    next
      case (Inr s1)
      with Some "1.prems" have "drain s1 = Inr s'" by (simp add: drain.simps [of s])
      from "1.IH" [OF Some Inr this] step_keeps_pre [of s s1] Some Inr show ?thesis by simp
    qed
  qed
qed

lemma resolve_pre:
  assumes "resolve src dst n pre0 = Inr s"
  shows "pre s = pre0"
proof -
  from assms obtain s0 where "prepare src dst n pre0 = Inr s0" "drain s0 = Inr s"
    by (auto simp: resolve_def and_then_def split: sum.splits)
  with prepare_pre drain_keeps_pre show ?thesis by metis
qed

subsection \<open>What a move does with the rows\<close>

lemma kahn_inv_serves:
  assumes inv: "kahn_inv (rows src dst n pre0) s"
  shows "serves_rows src dst pre0 s"
proof -
  let ?A = "rows src dst n pre0"
  note I = kahn_invD [OF inv]
  have a: "\<exists>s'. moves s s' \<and> topo s' = topo s @ [t] \<and> qu s' = rest \<and>
              pending s' = row_of src dst pre0 t \<and> indegre s' = indegre s"
    if pd: "pending s = []" and q: "qu s = t # rest" for t rest
  proof -
    from q have "t \<in> set (pushed s)" by (simp add: pushed_def)
    then have tb: "in_bounds t ?A" by (rule I(4))
    then have "nat t < nat n" "int (nat t) = t"
      by (auto simp: in_bounds_def split: if_splits)
    then have row: "?A ! nat t = row_of src dst pre0 t" by (simp add: nth_rows)
    define s' where "s' = s\<lparr>topo := topo s @ [t], qu := rest, pending := ?A ! nat t\<rparr>"
    from tb I(1) have "pop_front t rest s = Inr s'"
      by (simp add: pop_front_def s'_def)
    with pd q have "moves s s'" by (simp add: moves_def step_def)
    moreover have "topo s' = topo s @ [t]" "qu s' = rest"
      "pending s' = row_of src dst pre0 t" "indegre s' = indegre s"
      by (simp_all add: s'_def row)
    ultimately show ?thesis by blast
  qed
  have b: "\<exists>s'. moves s s' \<and> pending s' = w \<and> topo s' = topo s \<and>
              in_bounds it (indegre s) \<and>
              indegre s' = (indegre s)[nat it := indegre s ! nat it - 1]"
    if pd: "pending s = it # w" for it w
  proof -
    from kahn_inv_relax [OF inv pd] obtain s' where
      r: "relax it (s\<lparr>pending := w\<rparr>) = Inr s'" and t: "topo s' = topo s"
      and d: "indegre s' = (indegre s)[nat it := indegre s ! nat it - 1]"
      by blast
    from r have p: "pending s' = w" and ib: "in_bounds it (indegre s)"
      by (auto simp: relax_def Let_def split: if_splits)
    from r pd have "moves s s'" by (simp add: moves_def step_def)
    with p t ib d show ?thesis by blast
  qed
  from a b show ?thesis unfolding serves_rows_def by blast
qed

lemma reach_serves:
  assumes v: "valid_input n pre0" and sd: "src < 2" "dst < 2"
  shows "\<exists>s0. prepare src dst n pre0 = Inr s0 \<and>
              (\<forall>s. moves\<^sup>*\<^sup>* s0 s \<longrightarrow> serves_rows src dst pre0 s)"
proof -
  note cl = closed_rows [OF v sd(2), of src]
  from resolve_run [OF v sd] obtain s0 where
    p: "prepare src dst n pre0 = Inr s0" and i0: "kahn_inv (rows src dst n pre0) s0"
    by blast
  have "serves_rows src dst pre0 s" if "moves\<^sup>*\<^sup>* s0 s" for s
    using kahn_inv_serves [OF reach_inv [OF that i0 cl]] .
  with p show ?thesis by blast
qed

section \<open>Properties\<close>

subsection \<open>Feasibility is acyclicity\<close>

text \<open>
  Claim C1. For every \<open>n \<ge> 0\<close> and every list of pairs of items below \<open>n\<close>, \<^verbatim>\<open>canFinish\<close>
  returns \<open>true\<close> exactly when the prerequisite graph is acyclic, and \<^verbatim>\<open>findOrder\<close> returns
  a sequence of length \<open>n\<close> when the graph is acyclic and the empty sequence otherwise.
\<close>

theorem resolvers_decide_acyclicity:
  assumes "valid_input n pre0"
  shows "canFinish n pre0 = Inr (acyclic (prereq_graph pre0)) \<and>
         (\<exists>t. findOrder n pre0 = Inr t \<and>
              (if acyclic (prereq_graph pre0) then int (length t) = n else t = []))"
proof -
  from findOrder_result [OF assms] obtain t where
    "findOrder n pre0 = Inr t"
    "if acyclic (prereq_graph pre0)
     then int (length t) = n \<and> (\<forall>p \<in> set pre0. before t (p ! 1) (p ! 0)) else t = []"
    by blast
  then have "\<exists>t. findOrder n pre0 = Inr t \<and>
              (if acyclic (prereq_graph pre0) then int (length t) = n else t = [])"
    by (cases "acyclic (prereq_graph pre0)") simp_all
  with canFinish_verdict [OF assms] show ?thesis by simp
qed

theorem resolvers_decide_acyclicity_witness:
  "valid_input 3 [[1, 0], [2, 1]] \<and>
   canFinish 3 [[1, 0], [2, 1]] = Inr (acyclic (prereq_graph [[1, 0], [2, 1]])) \<and>
   (\<exists>t. findOrder 3 [[1, 0], [2, 1]] = Inr t \<and>
        (if acyclic (prereq_graph [[1, 0], [2, 1]]) then int (length t) = 3 else t = []))"
proof -
  have v: "valid_input 3 [[1, 0], [2, 1]]"
    by (simp add: valid_input_def)
  from resolvers_decide_acyclicity [OF v] v show ?thesis by simp
qed

subsection \<open>Prerequisites come first\<close>

text \<open>
  Claim C2. On an acyclic well-formed input, the sequence returned by \<^verbatim>\<open>findOrder\<close> has no
  repeated item and, for every pair \<open>(a, b)\<close> of the list, holds \<open>b\<close> at a position strictly
  before \<open>a\<close>.
\<close>

theorem findOrder_respects_prerequisites:
  assumes "valid_input n pre0" and "acyclic (prereq_graph pre0)"
  shows "\<exists>t. findOrder n pre0 = Inr t \<and> distinct t \<and>
              (\<forall>p \<in> set pre0. before t (p ! 1) (p ! 0))"
  using findOrder_result [OF assms(1)] assms(2) by auto

theorem findOrder_respects_prerequisites_witness:
  "valid_input 4 [[1, 0], [2, 0], [3, 1], [3, 2]] \<and>
   acyclic (prereq_graph [[1, 0], [2, 0], [3, 1], [3, 2]]) \<and>
   (\<exists>t. findOrder 4 [[1, 0], [2, 0], [3, 1], [3, 2]] = Inr t \<and> distinct t \<and>
        (\<forall>p \<in> set [[1, 0], [2, 0], [3, 1], [3, 2]]. before t (p ! 1) (p ! 0)))"
proof -
  have v: "valid_input 4 [[1, 0], [2, 0], [3, 1], [3, 2]]"
    by (simp add: valid_input_def)
  have a: "acyclic (prereq_graph [[1, 0], [2, 0], [3, 1], [3, 2]])"
    by (simp add: prereq_graph_def rtrancl_insert acyclic_no_edges)
  from findOrder_respects_prerequisites [OF v a] v a show ?thesis by simp
qed

subsection \<open>Direction of the recorded edges\<close>

text \<open>
  Claim C3, as stated: both variants record, for each pair \<open>(a, b)\<close>, the edge from \<open>b\<close> to
  \<open>a\<close>, that is, they append \<open>a\<close> to the row of \<open>b\<close>. \<^verbatim>\<open>canFinish\<close> does the opposite: on the
  single pair \<open>(1, 0)\<close> it leaves the row of \<open>0\<close> empty and appends \<open>0\<close> to the row of \<open>1\<close>.
\<close>

theorem canFinish_records_reverse_edge:
  "valid_input 2 [[1, 0]] \<and>
   canFinish_adj 2 [[1, 0]] = Inr [[], [0]] \<and>
   rows 1 0 2 [[1, 0]] = [[1], []] \<and>
   canFinish_adj 2 [[1, 0]] \<noteq> Inr (rows 1 0 2 [[1, 0]])"
proof -
  have "canFinish_adj 2 [[1, 0]] = Inr [[], [0]]"
    unfolding canFinish_adj_def adjacency_def by code_simp
  moreover have "rows 1 0 2 [[1, 0]] = [[1], []]"
    by code_simp
  moreover have "valid_input 2 [[1, 0]]"
    by (simp add: valid_input_def)
  ultimately show ?thesis by simp
qed

text \<open>
  Claim C3, amended: \<^verbatim>\<open>findOrder\<close> records for each pair \<open>(a, b)\<close> the edge from \<open>b\<close> to \<open>a\<close>
  (the row of an item lists, in the order of the input, the first components of the
  pairs whose second component is that item), so that taking \<open>b\<close> from the queue
  decrements the counter of \<open>a\<close>; \<^verbatim>\<open>canFinish\<close> records the edge from \<open>a\<close> to \<open>b\<close> (the row of
  an item lists the second components of the pairs whose first component is that
  item), so that taking \<open>a\<close> from the queue decrements the counter of \<open>b\<close>. In every
  state that the loop passes through, taking an item from the queue starts the
  range-for over the row of that item, and each move of the range-for lowers the
  counter of the next item of the row by one.
\<close>

theorem adjacency_directions:
  assumes "valid_input n pre0"
  shows "findOrder_adj n pre0 = Inr (rows 1 0 n pre0) \<and>
         canFinish_adj n pre0 = Inr (rows 0 1 n pre0) \<and>
         (\<forall>p \<in> set pre0. p ! 0 \<in> set (row_of 1 0 pre0 (p ! 1)) \<and>
                         p ! 1 \<in> set (row_of 0 1 pre0 (p ! 0))) \<and>
         (\<exists>s0. prepare 1 0 n pre0 = Inr s0 \<and>
               (\<forall>s. moves\<^sup>*\<^sup>* s0 s \<longrightarrow> serves_rows 1 0 pre0 s)) \<and>
         (\<exists>s0. prepare 0 1 n pre0 = Inr s0 \<and>
               (\<forall>s. moves\<^sup>*\<^sup>* s0 s \<longrightarrow> serves_rows 0 1 pre0 s))"
proof -
  have sd: "(0::nat) < 2" "(1::nat) < 2" by simp_all
  from adjacency_rows [OF assms sd] adjacency_rows [OF assms sd(2,1)]
  have "findOrder_adj n pre0 = Inr (rows 1 0 n pre0) \<and>
        canFinish_adj n pre0 = Inr (rows 0 1 n pre0)"
    by (simp only: findOrder_adj_def canFinish_adj_def)
  moreover have "p ! 0 \<in> set (row_of 1 0 pre0 (p ! 1)) \<and> p ! 1 \<in> set (row_of 0 1 pre0 (p ! 0))"
    if "p \<in> set pre0" for p
    using that unfolding set_row_of by blast
  ultimately show ?thesis
    using reach_serves [OF assms sd] reach_serves [OF assms sd(2,1)] by blast
qed

theorem adjacency_directions_witness:
  "valid_input 3 [[1, 0], [2, 0], [2, 1]] \<and>
   findOrder_adj 3 [[1, 0], [2, 0], [2, 1]] = Inr [[1, 2], [2], []] \<and>
   canFinish_adj 3 [[1, 0], [2, 0], [2, 1]] = Inr [[], [0], [0, 1]] \<and>
   prepare 1 0 3 [[1, 0], [2, 0], [2, 1]] =
     Inr \<lparr>pre = [[1, 0], [2, 0], [2, 1]], adj = [[1, 2], [2], []], indegre = [0, 1, 2],
          qu = [0], topo = [], pending = []\<rparr> \<and>
   (\<exists>s'. moves \<lparr>pre = [[1, 0], [2, 0], [2, 1]], adj = [[1, 2], [2], []],
                 indegre = [0, 1, 2], qu = [0], topo = [], pending = []\<rparr> s' \<and>
         topo s' = [0] \<and> qu s' = [] \<and> pending s' = [1, 2] \<and> indegre s' = [0, 1, 2]) \<and>
   moves \<lparr>pre = [[1, 0], [2, 0], [2, 1]], adj = [[1, 2], [2], []], indegre = [0, 1, 2],
          qu = [0], topo = [], pending = []\<rparr>
         \<lparr>pre = [[1, 0], [2, 0], [2, 1]], adj = [[1, 2], [2], []], indegre = [0, 1, 2],
          qu = [], topo = [0], pending = [1, 2]\<rparr> \<and>
   (\<exists>s'. moves \<lparr>pre = [[1, 0], [2, 0], [2, 1]], adj = [[1, 2], [2], []],
                 indegre = [0, 1, 2], qu = [], topo = [0], pending = [1, 2]\<rparr> s' \<and>
         pending s' = [2] \<and> indegre s' = [0, 0, 2]) \<and>
   prepare 0 1 3 [[1, 0], [2, 0], [2, 1]] =
     Inr \<lparr>pre = [[1, 0], [2, 0], [2, 1]], adj = [[], [0], [0, 1]], indegre = [2, 1, 0],
          qu = [2], topo = [], pending = []\<rparr> \<and>
   (\<exists>s'. moves \<lparr>pre = [[1, 0], [2, 0], [2, 1]], adj = [[], [0], [0, 1]],
                 indegre = [2, 1, 0], qu = [2], topo = [], pending = []\<rparr> s' \<and>
         topo s' = [2] \<and> qu s' = [] \<and> pending s' = [0, 1] \<and> indegre s' = [2, 1, 0])"
  (is "?V \<and> ?FA \<and> ?CA \<and> prepare 1 0 3 ?P = Inr ?S0 \<and> ?E0 \<and> moves ?S0 ?S1 \<and> ?E1 \<and>
       prepare 0 1 3 ?P = Inr ?C0 \<and> ?E2")
proof -
  have v: ?V
    by (simp add: valid_input_def)
  have r: "rows 1 0 3 ?P = [[1, 2], [2], []]" "rows 0 1 3 ?P = [[], [0], [0, 1]]"
    by code_simp+
  have pf: "prepare 1 0 3 ?P = Inr ?S0" and pc: "prepare 0 1 3 ?P = Inr ?C0"
    by code_simp+
  have m: "moves ?S0 ?S1"
    by (simp add: moves_def step_def pop_front_def in_bounds_def)
  note ad = adjacency_directions [OF v]
  from ad r have adjs: ?FA ?CA by simp_all
  from ad pf have f: "moves\<^sup>*\<^sup>* ?S0 s \<Longrightarrow> serves_rows 1 0 ?P s" for s
    by auto
  from ad pc have c: "moves\<^sup>*\<^sup>* ?C0 s \<Longrightarrow> serves_rows 0 1 ?P s" for s
    by auto
  from f [of ?S0] have e0: ?E0
    unfolding serves_rows_def by (simp add: row_of_def)
  from m have "moves\<^sup>*\<^sup>* ?S0 ?S1" by (rule r_into_rtranclp)
  from f [OF this] have e1: ?E1
    unfolding serves_rows_def by simp blast
  from c [of ?C0] have e2: ?E2
    unfolding serves_rows_def by (simp add: row_of_def)
  from v adjs pf e0 m e1 pc e2 show ?thesis by blast
qed

subsection \<open>The two variants side by side\<close>

text \<open>
  Claim C4, as stated: \<^verbatim>\<open>canFinish\<close> returns \<open>true\<close> exactly when \<^verbatim>\<open>findOrder\<close> returns a
  sequence of length \<open>n\<close>, and the two variants perform the identical traversal. The
  traversals differ: on the single pair \<open>(1, 0)\<close> with \<open>n = 2\<close>, \<^verbatim>\<open>canFinish\<close> takes item 1 from
  the queue first and \<^verbatim>\<open>findOrder\<close> item 0.
\<close>

theorem traversals_differ:
  "valid_input 2 [[1, 0]] \<and>
   canFinish_visits 2 [[1, 0]] = Inr [1, 0] \<and>
   findOrder_visits 2 [[1, 0]] = Inr [0, 1] \<and>
   canFinish_visits 2 [[1, 0]] \<noteq> findOrder_visits 2 [[1, 0]]"
proof -
  have "canFinish_visits 2 [[1, 0]] = Inr [1, 0]"
    unfolding canFinish_visits_def visit_order_def by code_simp
  moreover have "findOrder_visits 2 [[1, 0]] = Inr [0, 1]"
    unfolding findOrder_visits_def visit_order_def by code_simp
  moreover have "valid_input 2 [[1, 0]]"
    by (simp add: valid_input_def)
  ultimately show ?thesis by simp
qed

text \<open>
  Claim C4, amended: on a well-formed input \<^verbatim>\<open>canFinish\<close> returns \<open>true\<close> exactly when
  \<^verbatim>\<open>findOrder\<close> returns a sequence of length \<open>n\<close>, and on a cyclic graph \<^verbatim>\<open>canFinish\<close> returns
  \<open>false\<close> and \<^verbatim>\<open>findOrder\<close> the empty sequence. Both results are computed from the sequence
  of visits of the same loop, run over opposite edge directions: the visits of
  \<^verbatim>\<open>canFinish\<close> are those of \<^verbatim>\<open>findOrder\<close> on the list with the two components of every pair
  exchanged.
\<close>

theorem variants_agree_on_feasibility:
  assumes "valid_input n pre0"
  shows "(canFinish n pre0 = Inr True \<longleftrightarrow>
            (\<exists>t. findOrder n pre0 = Inr t \<and> int (length t) = n)) \<and>
         (\<not> acyclic (prereq_graph pre0) \<longrightarrow>
            canFinish n pre0 = Inr False \<and> findOrder n pre0 = Inr []) \<and>
         canFinish n pre0 = and_then (canFinish_visits n pre0) (\<lambda>t. Inr (int (length t) = n)) \<and>
         findOrder n pre0 =
           and_then (findOrder_visits n pre0) (\<lambda>t. Inr (if int (length t) = n then t else [])) \<and>
         canFinish_visits n pre0 = findOrder_visits n (map rev pre0)"
proof -
  from findOrder_result [OF assms] obtain t where
    t: "findOrder n pre0 = Inr t"
       "if acyclic (prereq_graph pre0) then int (length t) = n else t = []"
    by (cases "acyclic (prereq_graph pre0)") auto
  note c = canFinish_verdict [OF assms]
  have "canFinish n pre0 = Inr True \<longleftrightarrow> (\<exists>t. findOrder n pre0 = Inr t \<and> int (length t) = n)"
  proof (cases "acyclic (prereq_graph pre0)")
    case True
    with t c show ?thesis by simp
  next
    case False
    from cyclic_positive [OF assms False] False t c show ?thesis by simp
  qed
  moreover have "\<not> acyclic (prereq_graph pre0) \<longrightarrow>
            canFinish n pre0 = Inr False \<and> findOrder n pre0 = Inr []"
    using t c by simp
  moreover have "canFinish n pre0 =
      and_then (canFinish_visits n pre0) (\<lambda>t. Inr (int (length t) = n))"
    by (cases "resolve 0 1 n pre0")
       (simp_all add: canFinish_def canFinish_visits_def visit_order_def)
  moreover have "findOrder n pre0 =
      and_then (findOrder_visits n pre0) (\<lambda>t. Inr (if int (length t) = n then t else []))"
    by (cases "resolve 1 0 n pre0")
       (simp_all add: findOrder_def findOrder_visits_def visit_order_def)
  moreover have "canFinish_visits n pre0 = findOrder_visits n (map rev pre0)"
    unfolding canFinish_visits_def findOrder_visits_def by (rule visit_order_swap [OF assms])
  ultimately show ?thesis by blast
qed

theorem variants_agree_on_feasibility_witness:
  "valid_input 2 [[0, 1], [1, 0]] \<and>
   \<not> acyclic (prereq_graph [[0, 1], [1, 0]]) \<and>
   canFinish 2 [[0, 1], [1, 0]] = Inr False \<and>
   findOrder 2 [[0, 1], [1, 0]] = Inr [] \<and>
   canFinish_visits 2 [[0, 1], [1, 0]] = findOrder_visits 2 (map rev [[0, 1], [1, 0]])"
proof -
  have v: "valid_input 2 [[0, 1], [1, 0]]"
    by (simp add: valid_input_def)
  have c: "\<not> acyclic (prereq_graph [[0, 1], [1, 0]])"
    by (simp add: prereq_graph_def rtrancl_insert)
  from variants_agree_on_feasibility [OF v] v c show ?thesis by blast
qed

subsection \<open>Cycles are reported through the return value\<close>

text \<open>
  Claim C5. On the two-item cycle \<open>[(0,1), (1,0)]\<close> with \<open>n = 2\<close> and on the self-loop
  \<open>[(0,0)]\<close> with \<open>n = 1\<close>, \<^verbatim>\<open>canFinish\<close> returns \<open>false\<close> and \<^verbatim>\<open>findOrder\<close> returns the empty
  sequence: both calls return normally, without a fault, and the self-loop does not
  yield a sequence of length one.
\<close>

theorem cycle_reported_by_value:
  "canFinish 2 [[0, 1], [1, 0]] = Inr False \<and>
   findOrder 2 [[0, 1], [1, 0]] = Inr [] \<and>
   canFinish 1 [[0, 0]] = Inr False \<and>
   findOrder 1 [[0, 0]] = Inr []"
  by code_simp

subsection \<open>No prerequisites\<close>

text \<open>
  Claim C6. With an empty list of pairs and any \<open>n \<ge> 0\<close>, \<^verbatim>\<open>canFinish\<close> returns \<open>true\<close> and
  \<^verbatim>\<open>findOrder\<close> returns the items in ascending order, \<open>0\<close> to \<open>n - 1\<close>, which is a
  permutation of the items.
\<close>

theorem no_prerequisites_identity_order:
  assumes "0 \<le> n"
  shows "canFinish n [] = Inr True \<and>
         findOrder n [] = Inr [0..n - 1] \<and>
         distinct [0..n - 1] \<and> set [0..n - 1] = {0..<n}"
proof -
  have sd: "(0::nat) < 2" "(1::nat) < 2" by simp_all
  from resolve_no_pairs [OF assms sd] obtain s where
    "resolve 0 1 n [] = Inr s" "topo s = [0..n - 1]"
    by blast
  with assms have "canFinish n [] = Inr True"
    by (simp add: canFinish_def)
  moreover
  from resolve_no_pairs [OF assms sd(2,1)] obtain s' where
    "resolve 1 0 n [] = Inr s'" "topo s' = [0..n - 1]"
    by blast
  with assms have "findOrder n [] = Inr [0..n - 1]"
    by (simp add: findOrder_def)
  moreover have "set [0..n - 1] = {0..<n}" by auto
  ultimately show ?thesis by simp
qed

theorem no_prerequisites_identity_order_witness:
  "(0::int) \<le> 3 \<and> canFinish 3 [] = Inr True \<and> findOrder 3 [] = Inr [0, 1, 2] \<and>
   distinct [0, 1, 2 :: int] \<and> set [0, 1, 2] = {0..<3 :: int}"
proof -
  have h: "(0::int) \<le> 3" by simp
  from no_prerequisites_identity_order [OF h] show ?thesis
    by (simp add: upto.simps)
qed

subsection \<open>Repeated pairs\<close>

text \<open>
  Claim C7. Appending a pair that the list already holds changes neither the value of
  \<^verbatim>\<open>canFinish\<close> nor whether \<^verbatim>\<open>findOrder\<close> returns a sequence of length \<open>n\<close>.
\<close>

theorem duplicate_pair_keeps_verdict:
  assumes "valid_input n pre0" and "p \<in> set pre0"
  shows "canFinish n (pre0 @ [p]) = canFinish n pre0 \<and>
         ((\<exists>t. findOrder n (pre0 @ [p]) = Inr t \<and> int (length t) = n) \<longleftrightarrow>
          (\<exists>t. findOrder n pre0 = Inr t \<and> int (length t) = n))"
proof -
  from assms have v: "valid_input n (pre0 @ [p])"
    by (simp add: valid_input_def)
  from assms(2) have g: "prereq_graph (pre0 @ [p]) = prereq_graph pre0"
    by (auto simp: prereq_graph_def)
  from findOrder_result [OF assms(1)] obtain t where
    t: "findOrder n pre0 = Inr t"
       "if acyclic (prereq_graph pre0) then int (length t) = n else t = []"
    by (cases "acyclic (prereq_graph pre0)") auto
  from findOrder_result [OF v] obtain t' where
    t': "findOrder n (pre0 @ [p]) = Inr t'"
        "if acyclic (prereq_graph pre0) then int (length t') = n else t' = []"
    unfolding g by (cases "acyclic (prereq_graph pre0)") auto
  from t t' have "(\<exists>t. findOrder n (pre0 @ [p]) = Inr t \<and> int (length t) = n) \<longleftrightarrow>
          (\<exists>t. findOrder n pre0 = Inr t \<and> int (length t) = n)"
    by (cases "acyclic (prereq_graph pre0)") simp_all
  moreover have "canFinish n (pre0 @ [p]) = canFinish n pre0"
    by (simp only: canFinish_verdict [OF v] canFinish_verdict [OF assms(1)] g)
  ultimately show ?thesis by simp
qed

theorem duplicate_pair_keeps_verdict_witness:
  "valid_input 2 [[1, 0]] \<and> [1, 0 :: int] \<in> set [[1, 0]] \<and>
   canFinish 2 ([[1, 0]] @ [[1, 0]]) = canFinish 2 [[1, 0]] \<and>
   ((\<exists>t. findOrder 2 ([[1, 0]] @ [[1, 0]]) = Inr t \<and> int (length t) = 2) \<longleftrightarrow>
    (\<exists>t. findOrder 2 [[1, 0]] = Inr t \<and> int (length t) = 2))"
proof -
  have v: "valid_input 2 [[1, 0]]"
    by (simp add: valid_input_def)
  have m: "[1, 0] \<in> set [[1, 0 :: int]]" by simp
  from duplicate_pair_keeps_verdict [OF v m] v m show ?thesis by blast
qed

subsection \<open>Counters and pushes during the loop\<close>

text \<open>
  Claim C8. On a well-formed input, in every state that the queue-draining loop of
  \<^verbatim>\<open>canFinish\<close> or of \<^verbatim>\<open>findOrder\<close> passes through, starting with the state on entry, no
  in-degree counter is negative, no item has been pushed twice, and the items pushed so
  far are exactly those whose counter is zero; a move of the loop pushes at most one
  item, and only one whose counter that move took from one to zero.
\<close>

theorem counters_stay_nonnegative_and_push_once:
  assumes "valid_input n pre0"
  shows "(\<exists>s0 sf. prepare 0 1 n pre0 = Inr s0 \<and> resolve 0 1 n pre0 = Inr sf \<and>
            moves\<^sup>*\<^sup>* s0 sf \<and>
            (\<forall>s. moves\<^sup>*\<^sup>* s0 s \<longrightarrow> tidy n s \<and> (\<forall>s'. moves s s' \<longrightarrow> push_rule s s'))) \<and>
         (\<exists>s0 sf. prepare 1 0 n pre0 = Inr s0 \<and> resolve 1 0 n pre0 = Inr sf \<and>
            moves\<^sup>*\<^sup>* s0 sf \<and>
            (\<forall>s. moves\<^sup>*\<^sup>* s0 s \<longrightarrow> tidy n s \<and> (\<forall>s'. moves s s' \<longrightarrow> push_rule s s')))"
proof -
  have run: "\<exists>s0 sf. prepare src dst n pre0 = Inr s0 \<and> resolve src dst n pre0 = Inr sf \<and>
            moves\<^sup>*\<^sup>* s0 sf \<and>
            (\<forall>s. moves\<^sup>*\<^sup>* s0 s \<longrightarrow> tidy n s \<and> (\<forall>s'. moves s s' \<longrightarrow> push_rule s s'))"
    if sd: "src < 2" "dst < 2" for src dst
  proof -
    let ?A = "rows src dst n pre0"
    from assms have len: "int (length ?A) = n" by (simp add: valid_input_def)
    note cl = closed_rows [OF assms sd(2), of src]
    from resolve_run [OF assms sd] obtain s0 sf where
      p: "prepare src dst n pre0 = Inr s0" and i0: "kahn_inv ?A s0"
      and r: "resolve src dst n pre0 = Inr sf" and m: "moves\<^sup>*\<^sup>* s0 sf"
      by blast
    have "tidy n s \<and> (\<forall>s'. moves s s' \<longrightarrow> push_rule s s')" if "moves\<^sup>*\<^sup>* s0 s" for s
      using kahn_inv_tidy [OF reach_inv [OF that i0 cl]] reach_push_rule [OF that i0 cl]
      unfolding len by blast
    with p r m show ?thesis by blast
  qed
  have sd: "(0::nat) < 2" "(1::nat) < 2" by simp_all
  from run [OF sd] run [OF sd(2,1)] show ?thesis by blast
qed

theorem counters_stay_nonnegative_and_push_once_witness:
  "valid_input 3 [[1, 0], [2, 1], [2, 1]] \<and>
   prepare 1 0 3 [[1, 0], [2, 1], [2, 1]] =
     Inr \<lparr>pre = [[1, 0], [2, 1], [2, 1]], adj = [[1], [2, 2], []], indegre = [0, 1, 2],
          qu = [0], topo = [], pending = []\<rparr> \<and>
   moves \<lparr>pre = [[1, 0], [2, 1], [2, 1]], adj = [[1], [2, 2], []], indegre = [0, 1, 2],
          qu = [0], topo = [], pending = []\<rparr>
         \<lparr>pre = [[1, 0], [2, 1], [2, 1]], adj = [[1], [2, 2], []], indegre = [0, 1, 2],
          qu = [], topo = [0], pending = [1]\<rparr> \<and>
   moves \<lparr>pre = [[1, 0], [2, 1], [2, 1]], adj = [[1], [2, 2], []], indegre = [0, 1, 2],
          qu = [], topo = [0], pending = [1]\<rparr>
         \<lparr>pre = [[1, 0], [2, 1], [2, 1]], adj = [[1], [2, 2], []], indegre = [0, 0, 2],
          qu = [1], topo = [0], pending = []\<rparr> \<and>
   tidy 3 \<lparr>pre = [[1, 0], [2, 1], [2, 1]], adj = [[1], [2, 2], []], indegre = [0, 1, 2],
          qu = [], topo = [0], pending = [1]\<rparr> \<and>
   push_rule \<lparr>pre = [[1, 0], [2, 1], [2, 1]], adj = [[1], [2, 2], []], indegre = [0, 1, 2],
          qu = [], topo = [0], pending = [1]\<rparr>
         \<lparr>pre = [[1, 0], [2, 1], [2, 1]], adj = [[1], [2, 2], []], indegre = [0, 0, 2],
          qu = [1], topo = [0], pending = []\<rparr>"
  (is "?V \<and> ?P \<and> moves ?S0 ?S1 \<and> moves ?S1 ?S2 \<and> ?T \<and> ?R")
proof -
  have v: ?V
    by (simp add: valid_input_def)
  have p: ?P
    by code_simp
  have m1: "moves ?S0 ?S1" and m2: "moves ?S1 ?S2"
    by (simp_all add: moves_def step_def pop_front_def relax_def in_bounds_def)
  from counters_stay_nonnegative_and_push_once [OF v] p
  have all: "moves\<^sup>*\<^sup>* ?S0 s \<Longrightarrow> tidy 3 s \<and> (\<forall>s'. moves s s' \<longrightarrow> push_rule s s')" for s
    by auto
  from m1 have "moves\<^sup>*\<^sup>* ?S0 ?S1" by (rule r_into_rtranclp)
  from all [OF this] m2 have "?T" "?R" by blast+
  with v p m1 m2 show ?thesis by blast
qed

subsection \<open>The closest-person comparison\<close>

text \<open>
  Claim C9, as stated: whenever the two differences \<open>x - z\<close> and \<open>y - z\<close> are
  representable, \<^verbatim>\<open>findClosest\<close> returns 1, 2 or 0 as \<open>|x - z|\<close> is less than, greater than or
  equal to \<open>|y - z|\<close>. This fails when a difference is the least \<^verbatim>\<open>int\<close>: its absolute value
  is not representable. For \<open>x = -2^31\<close> and \<open>y = z = 0\<close> both differences are representable
  and \<open>x\<close> is the farther one, but the function returns 1.
\<close>

theorem findClosest_least_difference:
  "representable (sint (- 2147483648 :: 32 word) - sint (0 :: 32 word)) \<and>
   representable (sint (0 :: 32 word) - sint (0 :: 32 word)) \<and>
   closest_spec (sint (- 2147483648 :: 32 word)) (sint (0 :: 32 word)) (sint (0 :: 32 word)) = 2 \<and>
   findClosest (- 2147483648) 0 0 = 1 \<and>
   sint (findClosest (- 2147483648) 0 0) \<noteq>
     closest_spec (sint (- 2147483648 :: 32 word)) (sint (0 :: 32 word)) (sint (0 :: 32 word))"
  by (simp add: representable_def closest_spec_def findClosest_def abs32_def word_sless_alt)

text \<open>
  Claim C9, amended: whenever the two differences are representable and neither is the
  least \<^verbatim>\<open>int\<close>, the function returns 1, 2 or 0 as \<open>|x - z|\<close> is less than, greater than or
  equal to \<open>|y - z|\<close>.
\<close>

theorem findClosest_compares_distances:
  assumes "representable (sint x - sint z)" and "representable (sint y - sint z)"
    and "sint x - sint z \<noteq> - (2 ^ 31)" and "sint y - sint z \<noteq> - (2 ^ 31)"
  shows "sint (findClosest x y z) = closest_spec (sint x) (sint y) (sint z)"
proof -
  note dx = sint_diff_exact [OF assms(1)] and dy = sint_diff_exact [OF assms(2)]
  from assms(1,3) dx have "- (2 ^ 31) < sint (x - z)"
    by (simp add: representable_def)
  then have ax: "sint (abs32 (x - z)) = \<bar>sint x - sint z\<bar>"
    using dx by (simp only: sint_abs32)
  from assms(2,4) dy have "- (2 ^ 31) < sint (y - z)"
    by (simp add: representable_def)
  then have ay: "sint (abs32 (y - z)) = \<bar>sint y - sint z\<bar>"
    using dy by (simp only: sint_abs32)
  show ?thesis
    by (simp add: findClosest_def Let_def word_sless_alt ax ay closest_spec_def)
qed

theorem findClosest_compares_distances_witness:
  "representable (sint (2 :: 32 word) - sint (4 :: 32 word)) \<and>
   representable (sint (7 :: 32 word) - sint (4 :: 32 word)) \<and>
   sint (2 :: 32 word) - sint (4 :: 32 word) \<noteq> - (2 ^ 31) \<and>
   sint (7 :: 32 word) - sint (4 :: 32 word) \<noteq> - (2 ^ 31) \<and>
   sint (findClosest 2 7 4) = closest_spec (sint (2 :: 32 word)) (sint (7 :: 32 word)) (sint (4 :: 32 word))"
proof -
  have h: "representable (sint (2 :: 32 word) - sint (4 :: 32 word))"
    "representable (sint (7 :: 32 word) - sint (4 :: 32 word))"
    "sint (2 :: 32 word) - sint (4 :: 32 word) \<noteq> - (2 ^ 31)"
    "sint (7 :: 32 word) - sint (4 :: 32 word) \<noteq> - (2 ^ 31)"
    by (simp_all add: representable_def)
  from findClosest_compares_distances [OF h] h show ?thesis by blast
qed

subsection \<open>The caller's list is left as it was\<close>

text \<open>
  Claim C10. Neither resolver writes to the list it receives by reference: whenever a
  call returns, \<open>pre\<close> holds the same elements as before the call, and so a second call
  with the same arguments returns the same result. A call on a well-formed input does
  return.
\<close>

theorem prerequisite_list_unchanged:
  "(\<forall>s. resolve 0 1 n pre0 = Inr s \<longrightarrow>
        pre s = pre0 \<and> canFinish n (pre s) = canFinish n pre0) \<and>
   (\<forall>s. resolve 1 0 n pre0 = Inr s \<longrightarrow>
        pre s = pre0 \<and> findOrder n (pre s) = findOrder n pre0) \<and>
   (valid_input n pre0 \<longrightarrow>
        (\<exists>s. resolve 0 1 n pre0 = Inr s) \<and> (\<exists>s. resolve 1 0 n pre0 = Inr s))"
proof -
  have sd: "(0::nat) < 2" "(1::nat) < 2" by simp_all
  have "\<exists>s. resolve 0 1 n pre0 = Inr s" "\<exists>s. resolve 1 0 n pre0 = Inr s"
    if "valid_input n pre0"
    using resolve_run [OF that sd] resolve_run [OF that sd(2,1)] by blast+
  moreover have "pre s = pre0 \<and> canFinish n (pre s) = canFinish n pre0"
    if "resolve 0 1 n pre0 = Inr s" for s
    using resolve_pre [OF that] by simp
  moreover have "pre s = pre0 \<and> findOrder n (pre s) = findOrder n pre0"
    if "resolve 1 0 n pre0 = Inr s" for s
    using resolve_pre [OF that] by simp
  ultimately show ?thesis by blast
qed

theorem prerequisite_list_unchanged_witness:
  "valid_input 2 [[1, 0]] \<and>
   resolve 0 1 2 [[1, 0]] =
     Inr \<lparr>pre = [[1, 0]], adj = [[], [0]], indegre = [0, 0], qu = [], topo = [1, 0],
          pending = []\<rparr> \<and>
   pre \<lparr>pre = [[1, 0]], adj = [[], [0]], indegre = [0, 0], qu = [], topo = [1, 0],
          pending = []\<rparr> = [[1, 0]] \<and>
   canFinish 2 (pre \<lparr>pre = [[1, 0]], adj = [[], [0]], indegre = [0, 0], qu = [],
                     topo = [1, 0], pending = []\<rparr>) = canFinish 2 [[1, 0]] \<and>
   resolve 1 0 2 [[1, 0]] =
     Inr \<lparr>pre = [[1, 0]], adj = [[1], []], indegre = [0, 0], qu = [], topo = [0, 1],
          pending = []\<rparr> \<and>
   pre \<lparr>pre = [[1, 0]], adj = [[1], []], indegre = [0, 0], qu = [], topo = [0, 1],
          pending = []\<rparr> = [[1, 0]] \<and>
   findOrder 2 (pre \<lparr>pre = [[1, 0]], adj = [[1], []], indegre = [0, 0], qu = [],
                     topo = [0, 1], pending = []\<rparr>) = findOrder 2 [[1, 0]]"
  (is "?V \<and> resolve 0 1 2 ?P = Inr ?C \<and> _ \<and> _ \<and> resolve 1 0 2 ?P = Inr ?F \<and> _ \<and> _")
proof -
  have v: ?V
    by (simp add: valid_input_def)
  have c: "resolve 0 1 2 ?P = Inr ?C" and f: "resolve 1 0 2 ?P = Inr ?F"
    by code_simp+
  from prerequisite_list_unchanged [of 2 ?P] c f
  have "pre ?C = ?P \<and> canFinish 2 (pre ?C) = canFinish 2 ?P"
    and "pre ?F = ?P \<and> findOrder 2 (pre ?F) = findOrder 2 ?P"
    by blast+
  with v c f show ?thesis by blast
qed

end
